theory Spec2Isabelle
  imports Complex_Main "HOL-Library.Word"
begin

section \<open>Numbers and typed arrays\<close>

text \<open>
  A JavaScript number is a double: a finite value, an infinity or NaN. A finite value is
  modelled as the real it denotes; the sign of zero is not modelled. The functions
  \<open>num_mul\<close>, \<open>num_add\<close>, \<open>num_sub\<close> and \<open>num_div\<close> below are the exact operations, and
  the operators of the language are these followed by rounding to the nearest double
  (\<open>js_mul\<close>, \<open>js_add\<close>, \<open>js_sub\<close>, \<open>js_div\<close>, after the definition of the rounding). The
  exact operation stands for the operator where the result is a double anyway: the
  decoder multiplies a float32 value by 255, which has at most 32 significant bits
  (lemma \<open>float32_times_255\<close>).
  \<open>undefined\<close>, the result of reading a typed array out of range, becomes NaN in
  arithmetic and is modelled as NaN where it is read.

  A \<open>Float32Array\<close> is a list of numbers, a \<open>Uint8ClampedArray\<close> a list of bytes.
  Writing a typed array out of range is ignored, which is what \<open>xs[i := v]\<close> does. A
  store into a \<open>Float32Array\<close> rounds the number to the nearest float32 (\<open>f32_store\<close>).
\<close>

datatype number = Fin real | PInf | NInf | NaN

type_synonym byte = "8 word"

definition u8_get :: "byte list \<Rightarrow> nat \<Rightarrow> number" where
  "u8_get a k = (if k < length a then Fin (real (unat (a ! k))) else NaN)"

definition f32_get :: "number list \<Rightarrow> nat \<Rightarrow> number" where
  "f32_get a k = (if k < length a then a ! k else NaN)"

text \<open>
  The conversion applied by a store into a \<open>Uint8ClampedArray\<close>: NaN becomes 0, the
  value is clamped to \<open>[0, 255]\<close> and rounded to the nearest integer, ties to even.
\<close>

fun ToUint8Clamp :: "number \<Rightarrow> byte" where
  "ToUint8Clamp NaN = 0"
| "ToUint8Clamp PInf = 255"
| "ToUint8Clamp NInf = 0"
| "ToUint8Clamp (Fin r) =
     (let c = min 255 (max 0 r); f = \<lfloor>c\<rfloor>
      in if real_of_int f + 1 / 2 < c then of_int (f + 1)
         else if c < real_of_int f + 1 / 2 then of_int f
         else if even f then of_int f else of_int (f + 1))"

text \<open>\<open>Math.round\<close> rounds to the nearest integer, ties towards \<open>+\<infinity>\<close>, as \<^const>\<open>round\<close> does.\<close>

fun Math_round :: "number \<Rightarrow> number" where
  "Math_round (Fin r) = Fin (real_of_int (round r))"
| "Math_round v = v"

fun Math_floor :: "number \<Rightarrow> number" where
  "Math_floor (Fin r) = Fin (real_of_int \<lfloor>r\<rfloor>)"
| "Math_floor v = v"

fun Math_abs :: "number \<Rightarrow> number" where
  "Math_abs (Fin r) = Fin \<bar>r\<bar>"
| "Math_abs PInf = PInf"
| "Math_abs NInf = PInf"
| "Math_abs NaN = NaN"

fun Math_max :: "number \<Rightarrow> number \<Rightarrow> number" where
  "Math_max NaN b = NaN"
| "Math_max a NaN = NaN"
| "Math_max PInf b = PInf"
| "Math_max a PInf = PInf"
| "Math_max NInf b = b"
| "Math_max a NInf = a"
| "Math_max (Fin p) (Fin q) = Fin (max p q)"

fun Math_min :: "number \<Rightarrow> number \<Rightarrow> number" where
  "Math_min NaN b = NaN"
| "Math_min a NaN = NaN"
| "Math_min NInf b = NInf"
| "Math_min a NInf = NInf"
| "Math_min PInf b = b"
| "Math_min a PInf = a"
| "Math_min (Fin p) (Fin q) = Fin (min p q)"

fun num_neg :: "number \<Rightarrow> number" where
  "num_neg (Fin r) = Fin (- r)"
| "num_neg PInf = NInf"
| "num_neg NInf = PInf"
| "num_neg NaN = NaN"

text \<open>An infinity of the sign of a non-zero real.\<close>

definition signed_inf :: "real \<Rightarrow> number" where
  "signed_inf r = (if r > 0 then PInf else if r < 0 then NInf else NaN)"

fun num_mul :: "number \<Rightarrow> number \<Rightarrow> number" where
  "num_mul NaN b = NaN"
| "num_mul a NaN = NaN"
| "num_mul (Fin p) (Fin q) = Fin (p * q)"
| "num_mul (Fin p) PInf = signed_inf p"
| "num_mul (Fin p) NInf = signed_inf (- p)"
| "num_mul PInf (Fin q) = signed_inf q"
| "num_mul NInf (Fin q) = signed_inf (- q)"
| "num_mul PInf PInf = PInf"
| "num_mul NInf NInf = PInf"
| "num_mul PInf NInf = NInf"
| "num_mul NInf PInf = NInf"

fun num_add :: "number \<Rightarrow> number \<Rightarrow> number" where
  "num_add NaN b = NaN"
| "num_add a NaN = NaN"
| "num_add (Fin p) (Fin q) = Fin (p + q)"
| "num_add PInf NInf = NaN"
| "num_add NInf PInf = NaN"
| "num_add PInf b = PInf"
| "num_add a PInf = PInf"
| "num_add NInf b = NInf"
| "num_add a NInf = NInf"

definition num_sub :: "number \<Rightarrow> number \<Rightarrow> number" where
  "num_sub a b = num_add a (num_neg b)"

fun num_div :: "number \<Rightarrow> number \<Rightarrow> number" where
  "num_div NaN b = NaN"
| "num_div a NaN = NaN"
| "num_div (Fin p) (Fin q) = (if q = 0 then signed_inf p else Fin (p / q))"
| "num_div (Fin p) b = Fin 0"
| "num_div PInf (Fin q) = (if q < 0 then NInf else PInf)"
| "num_div NInf (Fin q) = (if q < 0 then PInf else NInf)"
| "num_div a b = NaN"

fun num_le :: "number \<Rightarrow> number \<Rightarrow> bool" where
  "num_le NaN b = False"
| "num_le a NaN = False"
| "num_le NInf b = True"
| "num_le a PInf = True"
| "num_le PInf b = False"
| "num_le a NInf = False"
| "num_le (Fin p) (Fin q) = (p \<le> q)"

section \<open>Binary floating point\<close>

text \<open>The number of binary digits of a positive integer.\<close>

function bit_length :: "int \<Rightarrow> int" where
  "bit_length k = (if k \<le> 0 then 0 else bit_length (k div 2) + 1)"
  by pat_completeness auto
termination
  by (relation "measure nat") auto

declare bit_length.simps [simp del]

text \<open>The exponent \<open>e\<close> of a positive real \<open>x\<close>: \<open>2\<^sup>e \<le> x < 2\<^sup>e\<^sup>+\<^sup>1\<close>.\<close>

definition binade :: "real \<Rightarrow> int" where
  "binade x =
     (if 1 \<le> x then bit_length \<lfloor>x\<rfloor> - 1
      else - bit_length (\<lceil>1 / x\<rceil> - 1))"

definition pow2 :: "int \<Rightarrow> real" where
  "pow2 e = (if 0 \<le> e then 2 ^ nat e else 1 / 2 ^ nat (- e))"

text \<open>The nearest integer, ties to the even one.\<close>

definition round_half_even :: "real \<Rightarrow> int" where
  "round_half_even x =
     (let f = \<lfloor>x\<rfloor>
      in if x - real_of_int f < 1 / 2 then f
         else if 1 / 2 < x - real_of_int f then f + 1
         else if even f then f else f + 1)"

text \<open>
  Rounding a real to the nearest value of a binary format with \<open>p\<close> significant bits and
  exponents from \<open>emin\<close> to \<open>emax\<close>, ties to even: the spacing of the format around \<open>x\<close>
  is \<open>2\<^sup>e\<^sup>-\<^sup>p\<^sup>+\<^sup>1\<close>, where \<open>e\<close> is the exponent of \<open>x\<close> and at least \<open>emin\<close> (below
  \<open>2\<^sup>e\<^sup>m\<^sup>i\<^sup>n\<close> the values are subnormal and equally spaced); what rounds to \<open>2\<^sup>e\<^sup>m\<^sup>a\<^sup>x\<^sup>+\<^sup>1\<close> or
  more overflows to an infinity.
\<close>

definition round_binary :: "nat \<Rightarrow> int \<Rightarrow> int \<Rightarrow> real \<Rightarrow> number" where
  "round_binary p emin emax x =
     (if x = 0 then Fin 0
      else (let e = max emin (binade \<bar>x\<bar>);
                ulp = pow2 (e - int p + 1);
                y = real_of_int (round_half_even (\<bar>x\<bar> / ulp)) * ulp
            in if pow2 (emax + 1) \<le> y then signed_inf x else Fin (sgn x * y)))"

definition to_double :: "real \<Rightarrow> number" where
  "to_double = round_binary 53 (- 1022) 1023"

definition to_float32 :: "real \<Rightarrow> number" where
  "to_float32 = round_binary 24 (- 126) 127"

fun num_round :: "(real \<Rightarrow> number) \<Rightarrow> number \<Rightarrow> number" where
  "num_round rnd (Fin r) = rnd r"
| "num_round rnd v = v"

text \<open>The arithmetic operators of the language, and the store into a \<open>Float32Array\<close>.\<close>

definition js_mul :: "number \<Rightarrow> number \<Rightarrow> number" where
  "js_mul a b = num_round to_double (num_mul a b)"

definition js_add :: "number \<Rightarrow> number \<Rightarrow> number" where
  "js_add a b = num_round to_double (num_add a b)"

definition js_sub :: "number \<Rightarrow> number \<Rightarrow> number" where
  "js_sub a b = num_round to_double (num_sub a b)"

definition js_div :: "number \<Rightarrow> number \<Rightarrow> number" where
  "js_div a b = num_round to_double (num_div a b)"

definition f32_store :: "number \<Rightarrow> number" where
  "f32_store v = num_round to_float32 v"

section \<open>Pixels in a buffer\<close>

text \<open>The four stores that write one pixel at offset \<open>idx\<close> of an RGBA buffer.\<close>

definition set_rgba :: "byte list \<Rightarrow> nat \<Rightarrow> byte \<Rightarrow> byte \<Rightarrow> byte \<Rightarrow> byte \<Rightarrow> byte list" where
  "set_rgba a idx r g b al = a[idx := r, idx + 1 := g, idx + 2 := b, idx + 3 := al]"

section \<open>Configuration (config.js)\<close>

definition INPUT_SIZE :: nat where
  "INPUT_SIZE = 512"

definition HEIGHT_RATIO :: real where
  "HEIGHT_RATIO = 15 / 100"

definition WIDTH_RATIO :: real where
  "WIDTH_RATIO = 15 / 100"

definition EXTENDED_RATIO :: real where
  "EXTENDED_RATIO = 16 / 100"


section \<open>Images, regions and tensors\<close>

record ImageData =
  width :: nat
  height :: nat
  data :: "byte list"

record Region =
  region_x :: int
  region_y :: int
  region_width :: int
  region_height :: int

record Tensor =
  dtype :: string
  tdata :: "number list"
  dims :: "nat list"

text \<open>
  Modelled from the spec: \<open>calculateWatermarkRegion\<close> lives in \<open>utils.js\<close>, which is
  not among the sources. The spec gives the region anchored at the bottom-right corner,
  \<open>regionWidth = round(width * ratio)\<close>, \<open>regionHeight = round(height * ratio)\<close>,
  \<open>x = width - regionWidth\<close>, \<open>y = height - regionHeight\<close>, clamped into the image.
  The ratio is optional: the call without one uses the narrow ratio of the inference mask,
  which \<open>config.js\<close> gives per axis (the two are equal).
\<close>

definition calculateWatermarkRegion :: "nat \<Rightarrow> nat \<Rightarrow> real option \<Rightarrow> Region" where
  "calculateWatermarkRegion w h ratio =
     (let widthRatio = (case ratio of None \<Rightarrow> WIDTH_RATIO | Some r \<Rightarrow> r);
          heightRatio = (case ratio of None \<Rightarrow> HEIGHT_RATIO | Some r \<Rightarrow> r);
          regionWidth = min (int w) (max 0 (round (real w * widthRatio)));
          regionHeight = min (int h) (max 0 (round (real h * heightRatio)))
      in \<lparr>region_x = int w - regionWidth, region_y = int h - regionHeight,
          region_width = regionWidth, region_height = regionHeight\<rparr>)"

section \<open>Encoding: preprocessImage\<close>

text \<open>
  The body of the loop that fills the three channel planes; \<open>n\<close> is \<open>width * height\<close>.
  Each quotient is a double, and the store rounds it to a float32.
\<close>

definition fill_planes :: "byte list \<Rightarrow> nat \<Rightarrow> nat \<Rightarrow> number list \<Rightarrow> number list" where
  "fill_planes d n i a =
     a[i := f32_store (js_div (u8_get d (i * 4)) (Fin 255)),
       n + i := f32_store (js_div (u8_get d (i * 4 + 1)) (Fin 255)),
       2 * n + i := f32_store (js_div (u8_get d (i * 4 + 2)) (Fin 255))]"

text \<open>The mask value of one pixel, and the inner and outer loops that write it.\<close>

definition mask_value :: "Region \<Rightarrow> nat \<Rightarrow> nat \<Rightarrow> number" where
  "mask_value region px py =
     (if int py \<ge> region_y region \<and> int px \<ge> region_x region then Fin 1 else Fin 0)"

definition mask_row :: "Region \<Rightarrow> nat \<Rightarrow> nat \<Rightarrow> number list \<Rightarrow> number list" where
  "mask_row region w py a =
     fold (\<lambda>px m. m[py * w + px := mask_value region px py]) [0..<w] a"

definition preprocessImage :: "ImageData \<Rightarrow> Tensor \<times> Tensor" where
  "preprocessImage imageData =
     (let w = width imageData; h = height imageData; d = data imageData;
          float32Data = fold (fill_planes d (w * h)) [0..<w * h] (replicate (3 * w * h) (Fin 0));
          imageTensor = \<lparr>dtype = ''float32'', tdata = float32Data, dims = [1, 3, h, w]\<rparr>;
          region = calculateWatermarkRegion w h None;
          maskData = fold (mask_row region w) [0..<h] (replicate (w * h) (Fin 0));
          maskTensor = \<lparr>dtype = ''float32'', tdata = maskData, dims = [1, 1, h, w]\<rparr>
      in (imageTensor, maskTensor))"

section \<open>Decoding: postprocessImage\<close>

datatype DOMException = IndexSizeError | InvalidStateError

text \<open>
  The platform's \<open>ImageData\<close> constructors. \<open>new ImageData(data, sw, sh)\<close> throws when
  a side is zero, and unless the buffer holds a non-zero number of whole pixels that fill
  \<open>sh\<close> rows of \<open>sw\<close> pixels; \<open>new ImageData(sw, sh)\<close> throws when a side is zero and
  otherwise gives transparent black.
\<close>

definition new_ImageData_from :: "byte list \<Rightarrow> nat \<Rightarrow> nat \<Rightarrow> DOMException + ImageData" where
  "new_ImageData_from d sw sh =
     (if sw = 0 \<or> sh = 0 then Inl IndexSizeError
      else if length d = 0 \<or> length d mod 4 \<noteq> 0 then Inl InvalidStateError
      else if (length d div 4) mod sw \<noteq> 0 then Inl IndexSizeError
      else if (length d div 4) div sw \<noteq> sh then Inl IndexSizeError
      else Inr \<lparr>width = sw, height = sh, data = d\<rparr>)"

definition new_ImageData :: "nat \<Rightarrow> nat \<Rightarrow> DOMException + ImageData" where
  "new_ImageData sw sh =
     (if sw = 0 \<or> sh = 0 then Inl IndexSizeError
      else Inr \<lparr>width = sw, height = sh, data = replicate (sw * sh * 4) 0\<rparr>)"

text \<open>The loop that samples the tensor for its largest absolute value.\<close>

function sample_loop :: "number list \<Rightarrow> real \<Rightarrow> nat \<Rightarrow> number \<Rightarrow> number" where
  "sample_loop d sampleSize i maxVal =
     (if real i < sampleSize
      then sample_loop d sampleSize (i + 1) (Math_max maxVal (Math_abs (f32_get d i)))
      else maxVal)"
  by pat_completeness auto
termination
  by (relation "measure (\<lambda>(d, sampleSize, i, maxVal). nat \<lceil>sampleSize\<rceil> - i)") (auto, linarith)

declare sample_loop.simps [simp del]

text \<open>One channel of one pixel: denormalise if needed, round and clamp, then store.\<close>

definition decode_channel :: "bool \<Rightarrow> number \<Rightarrow> byte" where
  "decode_channel isNormalized v =
     (let c = (if isNormalized then num_mul v (Fin 255) else v)
      in ToUint8Clamp (Math_min (Fin 255) (Math_max (Fin 0) (Math_round c))))"

text \<open>The body of the conversion loop; \<open>n\<close> is \<open>width * height\<close>.\<close>

definition decode_pixel :: "number list \<Rightarrow> nat \<Rightarrow> bool \<Rightarrow> nat \<Rightarrow> byte list \<Rightarrow> byte list" where
  "decode_pixel d n isNormalized i rgbaData =
     (let r = f32_get d i;
          g = f32_get d (n + i);
          b = f32_get d (2 * n + i)
      in set_rgba rgbaData (i * 4)
           (decode_channel isNormalized r)
           (decode_channel isNormalized g)
           (decode_channel isNormalized b)
           255)"

definition postprocessImage :: "Tensor \<Rightarrow> nat \<Rightarrow> nat \<Rightarrow> DOMException + ImageData" where
  "postprocessImage outputTensor w h =
     (let d = tdata outputTensor;
          sampleSize = min 1000 (real (length d) / 3);
          maxVal = sample_loop d sampleSize 0 (Fin 0);
          isNormalized = num_le maxVal (Fin 2);
          rgbaData = fold (decode_pixel d (w * h) isNormalized) [0..<w * h]
                       (replicate (w * h * 4) 0)
      in new_ImageData_from rgbaData w h)"

section \<open>Composition: createFeatheredBlend and composeFinalImage\<close>

text \<open>
  The blend weight of a pixel at distance \<open>distFromCore\<close> from the core region:
  1 is the processed image, 0 the original.
\<close>

definition blend_alpha :: "real \<Rightarrow> real \<Rightarrow> real" where
  "blend_alpha featherSize distFromCore =
     (if distFromCore \<le> 0 then 1
      else if distFromCore \<ge> featherSize then 0
      else (let t = distFromCore / featherSize in 1 - (t * t * (3 - 2 * t))))"

definition dist_from_core :: "int \<Rightarrow> int \<Rightarrow> nat \<Rightarrow> nat \<Rightarrow> real" where
  "dist_from_core coreOffsetX coreOffsetY px py =
     (let distFromCoreX = (if int px < coreOffsetX then coreOffsetX - int px else 0);
          distFromCoreY = (if int py < coreOffsetY then coreOffsetY - int py else 0)
      in sqrt (real_of_int (distFromCoreX * distFromCoreX + distFromCoreY * distFromCoreY)))"

text \<open>
  One channel of the blended pixel: the difference, the two products and the sum are
  each rounded to a double. The weight comes from \<open>blend_alpha\<close>, over the reals; the
  code computes it in doubles, which gives the same weight where it is 0 or 1 (the
  distance is the rounded square root of an integer, the feather an integer) and a
  weight rounded at each step in between.
\<close>

definition blend_channel :: "byte list \<Rightarrow> byte list \<Rightarrow> real \<Rightarrow> nat \<Rightarrow> byte" where
  "blend_channel origData procData alpha k =
     ToUint8Clamp (Math_round (js_add (js_mul (u8_get origData k) (js_sub (Fin 1) (Fin alpha)))
                                      (js_mul (u8_get procData k) (Fin alpha))))"

text \<open>The body of the inner loop, the inner loop over a row, and the function.\<close>

definition blend_pixel ::
  "byte list \<Rightarrow> byte list \<Rightarrow> nat \<Rightarrow> real \<Rightarrow> int \<Rightarrow> int \<Rightarrow> nat \<Rightarrow> nat \<Rightarrow> byte list \<Rightarrow> byte list" where
  "blend_pixel origData procData w featherSize coreOffsetX coreOffsetY py px resultData =
     (let idx = (py * w + px) * 4;
          alpha = blend_alpha featherSize (dist_from_core coreOffsetX coreOffsetY px py)
      in set_rgba resultData idx
           (blend_channel origData procData alpha idx)
           (blend_channel origData procData alpha (idx + 1))
           (blend_channel origData procData alpha (idx + 2))
           255)"

definition blend_row ::
  "byte list \<Rightarrow> byte list \<Rightarrow> nat \<Rightarrow> real \<Rightarrow> int \<Rightarrow> int \<Rightarrow> nat \<Rightarrow> byte list \<Rightarrow> byte list" where
  "blend_row origData procData w featherSize coreOffsetX coreOffsetY py resultData =
     fold (blend_pixel origData procData w featherSize coreOffsetX coreOffsetY py) [0..<w]
       resultData"

definition createFeatheredBlend ::
  "ImageData \<Rightarrow> ImageData \<Rightarrow> nat \<Rightarrow> nat \<Rightarrow> real \<Rightarrow> int \<Rightarrow> int \<Rightarrow> DOMException + ImageData" where
  "createFeatheredBlend original processed w h featherSize coreOffsetX coreOffsetY =
     (case new_ImageData w h of
        Inl e \<Rightarrow> Inl e
      | Inr result \<Rightarrow>
          Inr (result\<lparr>data :=
                 fold (blend_row (data original) (data processed) w featherSize
                         coreOffsetX coreOffsetY)
                   [0..<h] (data result)\<rparr>))"

text \<open>
  A canvas, or an \<open>ImageBitmap\<close>, is a size and the colour stored for each pixel inside
  it. Browsers store the colours premultiplied by alpha, in 8 bits per channel:
  \<open>putImageData\<close> premultiplies the colours it stores and \<open>getImageData\<close> divides by
  alpha again, each rounding to the nearest integer. An opaque pixel is stored and read
  back as it is; below full opacity the conversions lose information, and a transparent
  pixel reads back as transparent black.
\<close>

type_synonym rgba = "byte \<times> byte \<times> byte \<times> byte"


definition premultiply_channel :: "byte \<Rightarrow> byte \<Rightarrow> byte" where
  "premultiply_channel c al = of_nat ((unat c * unat al + 127) div 255)"

definition premultiply :: "rgba \<Rightarrow> rgba" where
  "premultiply p =
     (case p of (r, g, b, al) \<Rightarrow>
        (premultiply_channel r al, premultiply_channel g al, premultiply_channel b al, al))"

definition unpremultiply_channel :: "byte \<Rightarrow> byte \<Rightarrow> byte" where
  "unpremultiply_channel c al = of_nat (min 255 ((unat c * 255 + unat al div 2) div unat al))"

definition unpremultiply :: "rgba \<Rightarrow> rgba" where
  "unpremultiply p =
     (case p of (r, g, b, al) \<Rightarrow>
        if al = 0 then (0, 0, 0, 0)
        else (unpremultiply_channel r al, unpremultiply_channel g al,
              unpremultiply_channel b al, al))"

record Bitmap =
  bwidth :: nat
  bheight :: nat
  pixel :: "nat \<Rightarrow> nat \<Rightarrow> rgba"



definition canvas_pixel :: "Bitmap \<Rightarrow> nat \<Rightarrow> nat \<Rightarrow> rgba" where
  "canvas_pixel canvas px py =
     (if px < bwidth canvas \<and> py < bheight canvas then pixel canvas px py else (0, 0, 0, 0))"

definition rgba_bytes :: "rgba \<Rightarrow> byte list" where
  "rgba_bytes p = (case p of (r, g, b, al) \<Rightarrow> [r, g, b, al])"

text \<open>
  \<open>ctx.getImageData(sx, sy, sw, sh)\<close> throws when a side is zero; pixels outside the canvas
  read as transparent black.
\<close>

definition getImageData :: "Bitmap \<Rightarrow> nat \<Rightarrow> nat \<Rightarrow> nat \<Rightarrow> nat \<Rightarrow> DOMException + ImageData" where
  "getImageData canvas sx sy sw sh =
     (if sw = 0 \<or> sh = 0 then Inl IndexSizeError
      else Inr \<lparr>width = sw, height = sh,
                data = concat (map (\<lambda>k. rgba_bytes (unpremultiply
                                          (canvas_pixel canvas (sx + k mod sw) (sy + k div sw))))
                                 [0..<sw * sh])\<rparr>)"







text \<open>
  The expanded region of the original image. Its offsets and sides are integers and
  never negative (lemma \<open>expanded_region_nonneg\<close> below), so they are handed to the canvas
  as naturals.
\<close>

definition expandedX :: "Region \<Rightarrow> nat \<Rightarrow> int" where
  "expandedX origRegion feather = max 0 (region_x origRegion - int feather)"

definition expandedY :: "Region \<Rightarrow> nat \<Rightarrow> int" where
  "expandedY origRegion feather = max 0 (region_y origRegion - int feather)"

definition expandedWidth :: "nat \<Rightarrow> Region \<Rightarrow> nat \<Rightarrow> int" where
  "expandedWidth origWidth origRegion feather =
     min (int origWidth - expandedX origRegion feather) (region_width origRegion + int feather)"

definition expandedHeight :: "nat \<Rightarrow> Region \<Rightarrow> nat \<Rightarrow> int" where
  "expandedHeight origHeight origRegion feather =
     min (int origHeight - expandedY origRegion feather) (region_height origRegion + int feather)"

text \<open>
  The source rectangle of the scaled draw: the extended region of the processed image,
  expanded by the feather scaled into the processed image's space per axis. The scale
  and the scaled feather are doubles; a region side of zero makes the scale infinite or
  NaN.
\<close>

definition procExpandedRegion :: "Region \<Rightarrow> nat \<Rightarrow> number \<times> number \<times> number \<times> number" where
  "procExpandedRegion origRegion feather =
     (let processedSize = INPUT_SIZE;
          processedRegion = calculateWatermarkRegion processedSize processedSize
                              (Some EXTENDED_RATIO);
          scaleX = js_div (Fin (real_of_int (region_width processedRegion)))
                     (Fin (real_of_int (region_width origRegion)));
          scaleY = js_div (Fin (real_of_int (region_height processedRegion)))
                     (Fin (real_of_int (region_height origRegion)));
          processedFeatherX = Math_floor (js_mul (Fin (real feather)) scaleX);
          processedFeatherY = Math_floor (js_mul (Fin (real feather)) scaleY);
          procExpandedX = Math_max (Fin 0)
             (js_sub (Fin (real_of_int (region_x processedRegion))) processedFeatherX);
          procExpandedY = Math_max (Fin 0)
             (js_sub (Fin (real_of_int (region_y processedRegion))) processedFeatherY);
          procExpandedWidth = Math_min (js_sub (Fin (real processedSize)) procExpandedX)
             (js_add (Fin (real_of_int (region_width processedRegion))) processedFeatherX);
          procExpandedHeight = Math_min (js_sub (Fin (real processedSize)) procExpandedY)
             (js_add (Fin (real_of_int (region_height processedRegion))) processedFeatherY)
      in (procExpandedX, procExpandedY, procExpandedWidth, procExpandedHeight))"








section \<open>The batch processor (batch-processor.js)\<close>

datatype BatchItemStatus = QUEUED | PROCESSING | COMPLETE | ERROR | CANCELLED

record File =
  file_name :: string
  file_size :: nat
  file_type :: string

text \<open>What \<open>validateImageFile\<close> returns; the \<open>error\<close> property may be absent.\<close>

record Validation =
  valid :: bool
  validation_error :: "string option"

text \<open>What the processing callback resolves to, as its documentation gives it.\<close>

record ProcessResult =
  dataUrl :: string
  originalDataUrl :: string

record BatchItem =
  item_id :: string
  item_file :: File
  fileName :: string
  fileSize :: nat
  status :: BatchItemStatus
  result :: "ProcessResult option"
  error :: "string option"
  thumbnail :: "string option"

text \<open>An entry of \<open>getResults\<close>.\<close>

record ResultEntry =
  entry_id :: string
  entry_fileName :: string
  entry_dataUrl :: string
  entry_originalDataUrl :: string

text \<open>
  How the promise of the processing callback settles. It resolves to a result, or rejects
  with a thrown value: \<open>null\<close> or \<open>undefined\<close>, or a value whose \<open>message\<close> property is a
  string or is absent.
\<close>

datatype Thrown = Nullish | ThrownValue "string option"

datatype Outcome = Resolved ProcessResult | Rejected Thrown

text \<open>
  The calls the processor makes to its collaborators, in order. The data of an item update
  is \<open>null\<close>, the file's name, size and validation error, the result's data URL (twice:
  as data URL and as thumbnail), or the error text.
\<close>

datatype UpdateData =
    NoData
  | Added string nat "string option"
  | Completed string string
  | Failed "string option"

datatype Call =
    ProcessCallback File
  | OnItemUpdate string BatchItemStatus UpdateData
  | OnProgressUpdate nat nat
  | OnComplete "ResultEntry list"

text \<open>
  The processor. Items are objects, shared between the queue and the invocations of
  \<open>start\<close> that hold one while they await it, and \<open>reset\<close> replaces the queue while
  such an invocation may be suspended: so the items live in a store, \<open>items\<close>, and the
  queue holds their addresses (indices into the store). \<open>pending\<close> lists the suspended
  invocations of \<open>start\<close>, each with its loop index and the address of the item it
  awaits. The three optional callbacks are flags (installed or not); what they are called
  with is appended to \<open>trace\<close>, as are the calls of the processing callback. Callbacks
  return normally. \<open>idsMade\<close> counts the calls of \<open>generateId\<close>.
\<close>

record BatchProcessor =
  items :: "BatchItem list"
  queue :: "nat list"
  onItemUpdate :: bool
  onProgressUpdate :: bool
  onComplete :: bool
  isProcessing :: bool
  isCancelled :: bool
  currentIndex :: nat
  pending :: "(nat \<times> nat) list"
  idsMade :: nat
  trace :: "Call list"

definition new_BatchProcessor :: "bool \<Rightarrow> bool \<Rightarrow> bool \<Rightarrow> BatchProcessor" where
  "new_BatchProcessor itemUpdate progressUpdate completeCb =
     \<lparr>items = [], queue = [],
      onItemUpdate = itemUpdate, onProgressUpdate = progressUpdate, onComplete = completeCb,
      isProcessing = False, isCancelled = False, currentIndex = 0,
      pending = [], idsMade = 0, trace = []\<rparr>"

definition call_onItemUpdate ::
  "string \<Rightarrow> BatchItemStatus \<Rightarrow> UpdateData \<Rightarrow> BatchProcessor \<Rightarrow> BatchProcessor" where
  "call_onItemUpdate i st d s =
     (if onItemUpdate s then s\<lparr>trace := trace s @ [OnItemUpdate i st d]\<rparr> else s)"

text \<open>The item at position \<open>j\<close> of the queue, and a store into a field of an item.\<close>

definition queue_item :: "BatchProcessor \<Rightarrow> nat \<Rightarrow> BatchItem" where
  "queue_item s j = items s ! (queue s ! j)"

definition update_item :: "nat \<Rightarrow> (BatchItem \<Rightarrow> BatchItem) \<Rightarrow> BatchProcessor \<Rightarrow> BatchProcessor" where
  "update_item a g s = s\<lparr>items := (items s)[a := g (items s ! a)]\<rparr>"

text \<open>
  \<open>generateId\<close> draws on the clock and the random generator; \<open>genId n\<close> is the id its
  \<open>n\<close>-th call makes. \<open>validate\<close> is \<open>validateImageFile\<close> of \<open>utils.js\<close>, which is not
  among the sources. The body of the loop of \<open>addFiles\<close>, and \<open>addFiles\<close>:
\<close>

definition add_file ::
  "(File \<Rightarrow> Validation) \<Rightarrow> (nat \<Rightarrow> string) \<Rightarrow> File
     \<Rightarrow> string list \<times> BatchProcessor \<Rightarrow> string list \<times> BatchProcessor" where
  "add_file validate genId f acc =
     (case acc of (addedIds, s) \<Rightarrow>
        (let validation = validate f;
             item = \<lparr>item_id = genId (idsMade s), item_file = f,
                     fileName = file_name f, fileSize = file_size f,
                     status = (if valid validation then QUEUED else ERROR),
                     result = None,
                     error = (if valid validation then None else validation_error validation),
                     thumbnail = None\<rparr>;
             s = s\<lparr>idsMade := idsMade s + 1\<rparr>;
             s = s\<lparr>items := items s @ [item], queue := queue s @ [length (items s)]\<rparr>
         in (addedIds @ [item_id item],
             call_onItemUpdate (item_id item) (status item)
               (Added (fileName item) (fileSize item) (error item)) s)))"

definition addFiles ::
  "(File \<Rightarrow> Validation) \<Rightarrow> (nat \<Rightarrow> string) \<Rightarrow> File list \<Rightarrow> BatchProcessor
     \<Rightarrow> string list \<times> BatchProcessor" where
  "addFiles validate genId files s = fold (add_file validate genId) files ([], s)"

definition is_terminal :: "BatchItemStatus \<Rightarrow> bool" where
  "is_terminal st = (st = COMPLETE \<or> st = ERROR \<or> st = CANCELLED)"

definition getProgress :: "BatchProcessor \<Rightarrow> nat \<times> nat \<times> string option" where
  "getProgress s =
     (let q = map (\<lambda>a. items s ! a) (queue s);
          completed = length (filter (\<lambda>item. is_terminal (status item)) q);
          processing = find (\<lambda>item. status item = PROCESSING) q
      in (completed, length (queue s), map_option fileName processing))"

definition call_onProgressUpdate :: "BatchProcessor \<Rightarrow> BatchProcessor" where
  "call_onProgressUpdate s =
     (if onProgressUpdate s
      then (case getProgress s of (completed, totalCount, processing) \<Rightarrow>
              s\<lparr>trace := trace s @ [OnProgressUpdate completed totalCount]\<rparr>)
      else s)"

definition result_entry :: "BatchItem \<Rightarrow> ResultEntry" where
  "result_entry item =
     \<lparr>entry_id = item_id item, entry_fileName = fileName item,
      entry_dataUrl = dataUrl (the (result item)),
      entry_originalDataUrl = originalDataUrl (the (result item))\<rparr>"

definition getResults :: "BatchProcessor \<Rightarrow> ResultEntry list" where
  "getResults s =
     map result_entry
       (filter (\<lambda>item. status item = COMPLETE \<and> result item \<noteq> None)
          (map (\<lambda>a. items s ! a) (queue s)))"

text \<open>The inner loop of \<open>start\<close> that marks the items from position \<open>i\<close> on as cancelled.\<close>

definition cancel_item :: "nat \<Rightarrow> BatchProcessor \<Rightarrow> BatchProcessor" where
  "cancel_item j s =
     (if status (queue_item s j) = QUEUED
      then call_onItemUpdate (item_id (queue_item s j)) CANCELLED NoData
             (update_item (queue s ! j) (\<lambda>item. item\<lparr>status := CANCELLED\<rparr>) s)
      else s)"

definition cancel_remaining :: "nat \<Rightarrow> BatchProcessor \<Rightarrow> BatchProcessor" where
  "cancel_remaining i s = fold cancel_item [i..<length (queue s)] s"

text \<open>What \<open>start\<close> does after its loop.\<close>

definition finish :: "BatchProcessor \<Rightarrow> BatchProcessor" where
  "finish s =
     (let s = s\<lparr>isProcessing := False\<rparr>
      in if onComplete s then s\<lparr>trace := trace s @ [OnComplete (getResults s)]\<rparr> else s)"

text \<open>
  An iteration of the loop of \<open>start\<close> up to the call of the processing callback, where
  the invocation is suspended on the promise it awaits.
\<close>

definition begin_item :: "nat \<Rightarrow> BatchProcessor \<Rightarrow> BatchProcessor" where
  "begin_item i s =
     (let a = queue s ! i;
          s = update_item a (\<lambda>item. item\<lparr>status := PROCESSING\<rparr>) s;
          s = s\<lparr>currentIndex := i\<rparr>;
          s = call_onItemUpdate (item_id (items s ! a)) PROCESSING NoData s;
          s = call_onProgressUpdate s;
          s = s\<lparr>trace := trace s @ [ProcessCallback (item_file (items s ! a))]\<rparr>
      in s\<lparr>pending := pending s @ [(i, a)]\<rparr>)"

text \<open>
  The loop of \<open>start\<close> from index \<open>i\<close>, run until the invocation is suspended or returns.
\<close>

function run_loop :: "nat \<Rightarrow> BatchProcessor \<Rightarrow> BatchProcessor" where
  "run_loop i s =
     (if i < length (queue s)
      then if isCancelled s then finish (cancel_remaining i s)
           else if status (queue_item s i) \<noteq> QUEUED then run_loop (i + 1) s
           else begin_item i s
      else finish s)"
  by pat_completeness auto
termination
  by (relation "measure (\<lambda>(i, s). length (queue s) - i)") auto

declare run_loop.simps [simp del]

definition start :: "BatchProcessor \<Rightarrow> BatchProcessor" where
  "start s =
     (if isProcessing s then s
      else run_loop 0 (s\<lparr>isProcessing := True, isCancelled := False\<rparr>))"

text \<open>
  The text stored for a failure: its message, or a fixed text when the message is absent
  or empty.
\<close>

definition error_text :: "string option \<Rightarrow> string" where
  "error_text message =
     (case message of
        None \<Rightarrow> ''Processing failed''
      | Some m \<Rightarrow> if m = [] then ''Processing failed'' else m)"

text \<open>
  The awaited promise of the \<open>k\<close>-th suspended invocation settles, and the invocation runs
  on: the rest of the \<open>try\<close> statement, the progress report, and the loop from the next
  index. When the thrown value is \<open>null\<close> or \<open>undefined\<close>, reading its \<open>message\<close> in the
  \<open>catch\<close> block throws, after the status has been stored, and the invocation ends there.
\<close>

definition settle :: "nat \<Rightarrow> Outcome \<Rightarrow> BatchProcessor \<Rightarrow> BatchProcessor" where
  "settle k outcome s =
     (if k < length (pending s)
      then (case pending s ! k of (i, a) \<Rightarrow>
        (let s = s\<lparr>pending := take k (pending s) @ drop (k + 1) (pending s)\<rparr>
         in case outcome of
              Resolved res \<Rightarrow>
                (let s = update_item a (\<lambda>item. item\<lparr>status := COMPLETE\<rparr>) s;
                     s = update_item a (\<lambda>item. item\<lparr>result := Some res\<rparr>) s;
                     s = call_onItemUpdate (item_id (items s ! a)) COMPLETE
                           (Completed (dataUrl res) (dataUrl res)) s
                 in run_loop (i + 1) (call_onProgressUpdate s))
            | Rejected Nullish \<Rightarrow>
                update_item a (\<lambda>item. item\<lparr>status := ERROR\<rparr>) s
            | Rejected (ThrownValue message) \<Rightarrow>
                (let s = update_item a (\<lambda>item. item\<lparr>status := ERROR\<rparr>) s;
                     s = update_item a (\<lambda>item. item\<lparr>error := Some (error_text message)\<rparr>) s;
                     s = call_onItemUpdate (item_id (items s ! a)) ERROR
                           (Failed (error (items s ! a))) s
                 in run_loop (i + 1) (call_onProgressUpdate s))))
      else s)"

definition cancel :: "BatchProcessor \<Rightarrow> BatchProcessor" where
  "cancel s = s\<lparr>isCancelled := True\<rparr>"

definition reset :: "BatchProcessor \<Rightarrow> BatchProcessor" where
  "reset s = s\<lparr>queue := [], isProcessing := False, isCancelled := False, currentIndex := 0\<rparr>"

definition hasResults :: "BatchProcessor \<Rightarrow> bool" where
  "hasResults s = (\<exists>a \<in> set (queue s). status (items s ! a) = COMPLETE)"

text \<open>
  What can happen to a processor: a call of one of its methods that change it, or the
  settling of a promise that a suspended invocation of \<open>start\<close> awaits.
\<close>

datatype Event = AddFiles "File list" | Start | Cancel | Reset | Settle nat Outcome

fun step :: "(File \<Rightarrow> Validation) \<Rightarrow> (nat \<Rightarrow> string) \<Rightarrow> Event \<Rightarrow> BatchProcessor \<Rightarrow> BatchProcessor" where
  "step validate genId (AddFiles files) s = snd (addFiles validate genId files s)"
| "step validate genId Start s = start s"
| "step validate genId Cancel s = cancel s"
| "step validate genId Reset s = reset s"
| "step validate genId (Settle k outcome) s = settle k outcome s"

definition run_events ::
  "(File \<Rightarrow> Validation) \<Rightarrow> (nat \<Rightarrow> string) \<Rightarrow> Event list \<Rightarrow> BatchProcessor \<Rightarrow> BatchProcessor" where
  "run_events validate genId events s = fold (step validate genId) events s"

text \<open>
  The transitions the spec allows an item's status in one step of the processor: none,
  \<open>QUEUED \<rightarrow> PROCESSING\<close>, \<open>PROCESSING \<rightarrow> COMPLETE\<close>, \<open>PROCESSING \<rightarrow> ERROR\<close>, and
  \<open>QUEUED \<rightarrow> CANCELLED\<close> when cancellation has been requested.
\<close>

definition status_step :: "bool \<Rightarrow> BatchItemStatus \<Rightarrow> BatchItemStatus \<Rightarrow> bool" where
  "status_step cancelRequested st st' =
     (st' = st
      \<or> (st = QUEUED \<and> st' = PROCESSING)
      \<or> (st = PROCESSING \<and> (st' = COMPLETE \<or> st' = ERROR))
      \<or> (st = QUEUED \<and> st' = CANCELLED \<and> cancelRequested))"

text \<open>
  What holds of every processor that the constructor and the events can produce: the
  queue holds addresses of the store, each once; every suspended invocation awaits an
  item that is \<open>PROCESSING\<close>, and no two await the same item; a \<open>COMPLETE\<close> item has
  its result.
\<close>

definition wf_processor :: "BatchProcessor \<Rightarrow> bool" where
  "wf_processor s =
     ((\<forall>a \<in> set (queue s). a < length (items s))
      \<and> distinct (queue s)
      \<and> (\<forall>p \<in> set (pending s). snd p < length (items s) \<and> status (items s ! snd p) = PROCESSING)
      \<and> distinct (map snd (pending s))
      \<and> (\<forall>a < length (items s). status (items s ! a) = COMPLETE \<longrightarrow> result (items s ! a) \<noteq> None))"

text \<open>
  What a piece of the loop of \<open>start\<close> may do: it leaves every item as it is, or moves a
  \<open>QUEUED\<close> item to \<open>PROCESSING\<close>, or to \<open>CANCELLED\<close> if cancellation was requested,
  changing no other field; and it suspends at most one more invocation, on an item it has
  just moved from \<open>QUEUED\<close> to \<open>PROCESSING\<close>.
\<close>

definition loop_effect :: "BatchProcessor \<Rightarrow> BatchProcessor \<Rightarrow> bool" where
  "loop_effect s s' =
     (length (items s') = length (items s) \<and> queue s' = queue s
      \<and> isCancelled s' = isCancelled s
      \<and> (\<forall>a < length (items s).
            items s' ! a = items s ! a
            \<or> (status (items s ! a) = QUEUED
                \<and> (items s' ! a = (items s ! a)\<lparr>status := PROCESSING\<rparr>
                    \<or> (isCancelled s \<and> items s' ! a = (items s ! a)\<lparr>status := CANCELLED\<rparr>))))
      \<and> (pending s' = pending s
          \<or> (\<exists>j < length (queue s).
                pending s' = pending s @ [(j, queue s ! j)]
                \<and> status (items s ! (queue s ! j)) = QUEUED
                \<and> status (items s' ! (queue s ! j)) = PROCESSING)))"

text \<open>The item whose promise has settled, as the \<open>try\<close> statement of \<open>start\<close> leaves it.\<close>

definition settled_item :: "Outcome \<Rightarrow> BatchItem \<Rightarrow> BatchItem" where
  "settled_item outcome item =
     (case outcome of
        Resolved res \<Rightarrow> item\<lparr>status := COMPLETE, result := Some res\<rparr>
      | Rejected Nullish \<Rightarrow> item\<lparr>status := ERROR\<rparr>
      | Rejected (ThrownValue message) \<Rightarrow> item\<lparr>status := ERROR, error := Some (error_text message)\<rparr>)"

text \<open>The files the processing callback has been called with, in order.\<close>

fun process_calls :: "Call list \<Rightarrow> File list" where
  "process_calls [] = []"
| "process_calls (ProcessCallback f # calls) = f # process_calls calls"
| "process_calls (c # calls) = process_calls calls"

text \<open>
  A run in which nothing happens but the settling of the promise that the single
  invocation of \<open>start\<close> awaits, once per outcome.
\<close>

fun settle_all :: "Outcome list \<Rightarrow> BatchProcessor \<Rightarrow> BatchProcessor" where
  "settle_all [] s = s"
| "settle_all (outcome # outcomes) s = settle_all outcomes (settle 0 outcome s)"

text \<open>The positions of the queue, from \<open>i\<close> on, whose item is still \<open>QUEUED\<close>.\<close>

definition queued_from :: "nat \<Rightarrow> BatchProcessor \<Rightarrow> nat list" where
  "queued_from i s = filter (\<lambda>j. status (queue_item s j) = QUEUED) [i..<length (queue s)]"

text \<open>Inputs for the examples: a validator, an id generator, and files.\<close>

definition example_validate :: "File \<Rightarrow> Validation" where
  "example_validate f =
     (if file_size f \<le> 100 then \<lparr>valid = True, validation_error = None\<rparr>
      else \<lparr>valid = False, validation_error = Some ''File size exceeds limit''\<rparr>)"

definition example_genId :: "nat \<Rightarrow> string" where
  "example_genId n = ''batch-'' @ replicate n (CHR ''i'')"

definition small_file :: File where
  "small_file = \<lparr>file_name = ''a.png'', file_size = 10, file_type = ''image/png''\<rparr>"

definition large_file :: File where
  "large_file = \<lparr>file_name = ''b.png'', file_size = 500, file_type = ''image/png''\<rparr>"

definition other_file :: File where
  "other_file = \<lparr>file_name = ''c.png'', file_size = 20, file_type = ''image/png''\<rparr>"

definition example_result :: ProcessResult where
  "example_result = \<lparr>dataUrl = ''data:clean'', originalDataUrl = ''data:original''\<rparr>"

text \<open>
  An example run: three files are added, of which the second fails validation; the
  processor is started and, while the first item is being processed, cancelled.
\<close>

definition example_run :: BatchProcessor where
  "example_run =
     run_events example_validate example_genId
       [AddFiles [small_file, large_file, other_file], Start, Cancel]
       (new_BatchProcessor True True True)"

text \<open>The example run after the promise of the first item has resolved.\<close>

definition example_finished :: BatchProcessor where
  "example_finished =
     run_events example_validate example_genId
       [AddFiles [small_file, large_file, other_file], Start, Cancel,
        Settle 0 (Resolved example_result)]
       (new_BatchProcessor True True True)"

text \<open>A run of two files, both valid, started and not cancelled.\<close>

definition example_started :: BatchProcessor where
  "example_started =
     run_events example_validate example_genId
       [AddFiles [small_file, other_file], Start]
       (new_BatchProcessor True True True)"

text \<open>Two valid files added to a new processor, which has not been started.\<close>

definition example_added :: BatchProcessor where
  "example_added =
     run_events example_validate example_genId
       [AddFiles [small_file, other_file]]
       (new_BatchProcessor True True True)"

text \<open>The started run after the processing of the first file has failed.\<close>

definition example_failed :: BatchProcessor where
  "example_failed = settle 0 (Rejected (ThrownValue (Some ''boom''))) example_started"

section \<open>Properties of the rounding\<close>

lemma bit_length_nonneg: "0 \<le> bit_length k"
  by (induction k rule: bit_length.induct) (subst bit_length.simps, simp)

lemma bit_length_pos: "0 < k \<Longrightarrow> 1 \<le> bit_length k"
  using bit_length_nonneg [of "k div 2"] by (subst bit_length.simps) simp

lemma bit_length_le: "k < 2 ^ n \<Longrightarrow> bit_length k \<le> int n"
proof (induction n arbitrary: k)
  case 0
  then show ?case by (subst bit_length.simps) simp
next
  case (Suc n)
  show ?case
  proof (cases "k \<le> 0")
    case True
    then show ?thesis by (subst bit_length.simps) simp
  next
    case False
    from Suc.prems have "k div 2 < 2 ^ n" by simp
    from Suc.IH [OF this] False show ?thesis by (subst bit_length.simps) simp
  qed
qed

lemma binade_le_0: "0 < x \<Longrightarrow> x < 2 \<Longrightarrow> binade x \<le> 0"
proof (cases "1 \<le> x")
  case True
  assume "x < 2"
  with True have "\<lfloor>x\<rfloor> = 1" by linarith
  then show ?thesis using True by (simp add: binade_def bit_length.simps)
next
  case False
  then show ?thesis using bit_length_nonneg [of "\<lceil>1 / x\<rceil> - 1"] by (simp add: binade_def)
qed

lemma binade_of_int:
  assumes "1 \<le> k" and "k < 2 ^ n"
  shows "0 \<le> binade (real_of_int k)" and "binade (real_of_int k) < int n"
  using assms bit_length_pos [of k] bit_length_le [of k n] by (simp_all add: binade_def)

lemma pow2_powi: "pow2 e = 2 powi e"
  by (simp add: pow2_def power_int_def power_one_over inverse_eq_divide)

lemma pow2_pos: "0 < pow2 e"
  by (simp add: pow2_def)

lemma pow2_mono: "e \<le> f \<Longrightarrow> pow2 e \<le> pow2 f"
  unfolding pow2_powi by (rule power_int_increasing) simp_all

lemma round_half_even_error: "\<bar>real_of_int (round_half_even x) - x\<bar> \<le> 1 / 2"
  unfolding round_half_even_def Let_def by (auto; linarith)

lemma round_half_even_of_int: "round_half_even (real_of_int k) = k"
  by (simp add: round_half_even_def)

lemma round_half_even_nonneg: "0 \<le> x \<Longrightarrow> 0 \<le> round_half_even x"
  unfolding round_half_even_def Let_def by (auto; linarith)

text \<open>Below 2 a value is rounded to within \<open>2\<^sup>-\<^sup>p\<close>, and does not overflow.\<close>

lemma round_binary_error:
  assumes "0 \<le> x" and "x < 2" and "emin \<le> 0" and "1 \<le> emax" and "0 < p"
  shows "\<exists>y. round_binary p emin emax x = Fin y \<and> 0 \<le> y \<and> \<bar>y - x\<bar> \<le> 1 / 2 ^ p"
proof (cases "x = 0")
  case True
  then show ?thesis by (simp add: round_binary_def)
next
  case False
  with assms(1) have pos: "0 < x" by simp
  define e where "e = max emin (binade \<bar>x\<bar>)"
  define ulp where "ulp = pow2 (e - int p + 1)"
  define n where "n = round_half_even (\<bar>x\<bar> / ulp)"
  define y where "y = real_of_int n * ulp"
  have e0: "e \<le> 0" using binade_le_0 [OF pos assms(2)] pos assms(3) by (simp add: e_def)
  have up: "0 < ulp" by (simp add: ulp_def pow2_pos)
  have "ulp \<le> pow2 (1 - int p)" unfolding ulp_def using e0 by (intro pow2_mono) simp
  also have "pow2 (1 - int p) = 2 / 2 ^ p"
    using assms(5) by (cases p) (simp_all add: pow2_def)
  finally have ub: "ulp \<le> 2 / 2 ^ p" .
  have "\<bar>real_of_int n - x / ulp\<bar> \<le> 1 / 2"
    using round_half_even_error [of "x / ulp"] pos by (simp add: n_def)
  then have "\<bar>real_of_int n - x / ulp\<bar> * ulp \<le> 1 / 2 * ulp"
    using up by (intro mult_right_mono) simp_all
  moreover have "\<bar>real_of_int n - x / ulp\<bar> * ulp = \<bar>y - x\<bar>"
  proof -
    have "(real_of_int n - x / ulp) * ulp = y - x"
      using up by (simp add: y_def left_diff_distrib)
    then have "\<bar>y - x\<bar> = \<bar>real_of_int n - x / ulp\<bar> * \<bar>ulp\<bar>"
      by (simp only: abs_mult [symmetric])
    with up show ?thesis by simp
  qed
  ultimately have err: "\<bar>y - x\<bar> \<le> 1 / 2 ^ p" using ub by simp
  have "(1::real) / 2 ^ p \<le> 1" by (simp add: divide_le_eq)
  with err assms(2) have "y < 4" by linarith
  moreover have "(4::real) \<le> pow2 (emax + 1)"
  proof -
    have "pow2 2 \<le> pow2 (emax + 1)" using assms(4) by (intro pow2_mono) simp
    then show ?thesis by (simp add: pow2_def)
  qed
  ultimately have no: "\<not> pow2 (emax + 1) \<le> y" by simp
  have "0 \<le> n" unfolding n_def using pos up by (intro round_half_even_nonneg) simp
  then have y0: "0 \<le> y" using up by (simp add: y_def)
  have "round_binary p emin emax x = Fin y"
    using False pos no
    by (simp add: round_binary_def Let_def y_def n_def ulp_def e_def)
  with y0 err show ?thesis by blast
qed

text \<open>An integer below \<open>2\<^sup>5\<^sup>3\<close> is a double.\<close>

lemma to_double_int:
  assumes "0 \<le> k" and "k < 2 ^ 53"
  shows "to_double (real_of_int k) = Fin (real_of_int k)"
proof (cases "k = 0")
  case True
  then show ?thesis by (simp add: to_double_def round_binary_def)
next
  case False
  with assms(1) have k1: "1 \<le> k" by simp
  define e where "e = binade (real_of_int k)"
  define m where "m = nat (52 - e)"
  have e: "0 \<le> e" "e < 53"
    using binade_of_int [OF k1 assms(2)] by (simp_all add: e_def)
  have ulp: "pow2 (e - 52) = 1 / 2 ^ m"
    using e by (simp add: pow2_def m_def)
  have q: "real_of_int k * 2 ^ m = real_of_int (k * 2 ^ m)" by simp
  have y: "real_of_int (round_half_even (real_of_int k * 2 ^ m)) / 2 ^ m = real_of_int k"
    unfolding q round_half_even_of_int by simp
  have "real_of_int k < 2 ^ 53" using assms(2) by (simp flip: of_int_less_iff)
  also have "(2::real) ^ 53 \<le> pow2 1024" by (simp add: pow2_def)
  finally have no: "\<not> pow2 1024 \<le> real_of_int k" by simp
  have mx: "max (- 1022) e = e" using e by simp
  show ?thesis
    using k1 no
    by (simp add: to_double_def round_binary_def Let_def e_def [symmetric] mx ulp y)
qed


lemma to_double_0 [simp]: "to_double 0 = Fin 0"
  by (simp add: to_double_def round_binary_def)

lemma to_double_1 [simp]: "to_double 1 = Fin 1"
  using to_double_int [of 1] by simp


lemma bit_length_bounds:
  "0 < k \<Longrightarrow> 2 ^ nat (bit_length k - 1) \<le> k \<and> k < 2 ^ nat (bit_length k)"
proof (induction k rule: bit_length.induct)
  case (1 k)
  show ?case
  proof (cases "k = 1")
    case True
    then show ?thesis by (simp add: bit_length.simps)
  next
    case False
    with "1.prems" have h: "0 < k div 2" by simp
    define b where "b = bit_length (k div 2)"
    from "1.IH" h "1.prems" have IH: "2 ^ nat (b - 1) \<le> k div 2" "k div 2 < 2 ^ nat b"
      by (simp_all add: b_def)
    have b1: "1 \<le> b" unfolding b_def by (rule bit_length_pos [OF h])
    have bl: "bit_length k = b + 1"
      using "1.prems" by (subst bit_length.simps) (simp add: b_def)
    have p: "(2::int) ^ nat b = 2 * 2 ^ nat (b - 1)"
      using b1 by (simp add: nat_diff_distrib flip: power_Suc)
    have "2 ^ nat b \<le> 2 * (k div 2)" unfolding p using IH(1) by simp
    also have "\<dots> \<le> k" by simp
    finally have lo: "2 ^ nat b \<le> k" .
    have "k < 2 * (k div 2) + 2" by simp
    also have "\<dots> \<le> 2 * 2 ^ nat b" using IH(2) by simp
    finally have hi: "k < 2 ^ nat (b + 1)"
      using b1 by (simp add: nat_add_distrib)
    show ?thesis unfolding bl using lo hi by simp
  qed
qed

text \<open>The exponent of a positive real is the one of its binary interval.\<close>

lemma binade_bounds:
  assumes "0 < x"
  shows "pow2 (binade x) \<le> x" and "x < pow2 (binade x + 1)"
proof -
  have "pow2 (binade x) \<le> x \<and> x < pow2 (binade x + 1)"
  proof (cases "1 \<le> x")
    case True
    define k where "k = \<lfloor>x\<rfloor>"
    have k: "1 \<le> k" "real_of_int k \<le> x" "x < real_of_int k + 1"
      using True by (simp_all add: k_def le_floor_iff)
    from k(1) have kp: "0 < k" by simp
    note B = bit_length_bounds [OF kp]
    have b1: "1 \<le> bit_length k" by (rule bit_length_pos [OF kp])
    have e: "binade x = bit_length k - 1" using True by (simp add: binade_def k_def)
    have "pow2 (bit_length k - 1) = real_of_int (2 ^ nat (bit_length k - 1))"
      using b1 by (simp add: pow2_def)
    also have "\<dots> \<le> real_of_int k" using B by (simp only: of_int_le_iff)
    finally have lo: "pow2 (binade x) \<le> x" using k(2) by (simp add: e)
    from B have "k + 1 \<le> 2 ^ nat (bit_length k)" by simp
    then have "real_of_int (k + 1) \<le> real_of_int (2 ^ nat (bit_length k))"
      by (simp only: of_int_le_iff)
    then have "real_of_int k + 1 \<le> pow2 (bit_length k)"
      using b1 by (simp add: pow2_def)
    with k(3) have "x < pow2 (binade x + 1)" by (simp add: e)
    with lo show ?thesis by simp
  next
    case False
    define y where "y = 1 / x"
    define m where "m = \<lceil>y\<rceil> - 1"
    define b where "b = bit_length m"
    from False assms have y1: "1 < y" by (simp add: y_def)
    have m: "real_of_int m < y" "y \<le> real_of_int m + 1"
      unfolding m_def by linarith+
    from y1 m(2) have mp: "0 < m" by linarith
    note B = bit_length_bounds [OF mp, folded b_def]
    have b1: "1 \<le> b" unfolding b_def by (rule bit_length_pos [OF mp])
    have e: "binade x = - b" using False by (simp add: binade_def b_def m_def y_def)
    from B have "m + 1 \<le> 2 ^ nat b" by simp
    then have "real_of_int (m + 1) \<le> real_of_int (2 ^ nat b)" by (simp only: of_int_le_iff)
    with m(2) have yb: "y \<le> 2 ^ nat b" by simp
    from B have "real_of_int (2 ^ nat (b - 1)) \<le> real_of_int m" by (simp only: of_int_le_iff)
    then have "real_of_int (2 ^ nat (b - 1)) < y" using m(1) by (rule le_less_trans)
    then have yl: "2 ^ nat (b - 1) < y" by simp
    have x: "x = 1 / y" using assms by (simp add: y_def)
    have "pow2 (- b) = 1 / 2 ^ nat b" using b1 by (simp add: pow2_def)
    also have "\<dots> \<le> 1 / y" using yb y1 by (intro divide_left_mono) simp_all
    finally have "pow2 (- b) \<le> 1 / y" .
    with x have lo: "pow2 (binade x) \<le> x" unfolding e by simp
    have "1 / y < 1 / 2 ^ nat (b - 1)"
      using yl y1 by (intro divide_strict_left_mono) simp_all
    also have "1 / 2 ^ nat (b - 1) = pow2 (- b + 1)"
    proof (cases "b = 1")
      case True
      then show ?thesis by (simp add: pow2_def)
    next
      case False
      with b1 have "nat (b - 1) = nat (- (- b + 1))" "\<not> 0 \<le> - b + 1" by simp_all
      then show ?thesis by (simp add: pow2_def)
    qed
    finally have "1 / y < pow2 (- b + 1)" .
    with x have "x < pow2 (binade x + 1)" unfolding e by simp
    with lo show ?thesis by simp
  qed
  then show "pow2 (binade x) \<le> x" and "x < pow2 (binade x + 1)" by simp_all
qed


lemma pow2_add: "pow2 (a + b) = pow2 a * pow2 b"
  unfolding pow2_powi by (simp add: power_int_add)

lemma pow2_strict_mono: "a < b \<Longrightarrow> pow2 a < pow2 b"
  unfolding pow2_powi by (rule power_int_strict_increasing) simp_all

lemma pow2_nat: "0 \<le> j \<Longrightarrow> pow2 j = real_of_int (2 ^ nat j)"
  by (simp add: pow2_def)

lemma binade_unique:
  assumes "pow2 e \<le> x" and "x < pow2 (e + 1)"
  shows "binade x = e"
proof -
  have pos: "0 < x" using pow2_pos [of e] assms(1) by simp
  note B = binade_bounds [OF pos]
  have "\<not> e + 1 \<le> binade x"
  proof
    assume "e + 1 \<le> binade x"
    then have "pow2 (e + 1) \<le> pow2 (binade x)" by (rule pow2_mono)
    with B(1) assms(2) show False by simp
  qed
  moreover have "\<not> binade x + 1 \<le> e"
  proof
    assume "binade x + 1 \<le> e"
    then have "pow2 (binade x + 1) \<le> pow2 e" by (rule pow2_mono)
    with B(2) assms(1) show False by simp
  qed
  ultimately show ?thesis by simp
qed

text \<open>
  A value \<open>m \<sqdot> 2\<^sup>k\<close> whose integer \<open>m\<close> has at most \<open>p\<close> bits and whose exponent is
  not below that of the smallest subnormal is a value of the format.
\<close>

lemma round_binary_exact:
  assumes m: "0 < m" "m < 2 ^ p" and k: "emin - int p + 1 \<le> k"
    and x: "x = real_of_int m * pow2 k" and no: "x < pow2 (emax + 1)"
  shows "round_binary p emin emax x = Fin x"
proof -
  define b where "b = bit_length m"
  note B = bit_length_bounds [OF m(1), folded b_def]
  have b1: "1 \<le> b" unfolding b_def by (rule bit_length_pos [OF m(1)])
  have bp: "b \<le> int p" unfolding b_def by (rule bit_length_le [OF m(2)])
  have pos: "0 < x" using m(1) pow2_pos [of k] by (simp add: x)
  have "pow2 (b - 1) \<le> real_of_int m"
    using B b1 by (simp add: pow2_nat del: of_int_power)
  then have "pow2 (b - 1) * pow2 k \<le> x"
    unfolding x using pow2_pos [of k] by (intro mult_right_mono) simp_all
  then have lo: "pow2 (b - 1 + k) \<le> x" by (simp only: pow2_add)
  have "real_of_int m < pow2 b"
    using B b1 by (simp add: pow2_nat del: of_int_power)
  then have "x < pow2 b * pow2 k"
    unfolding x using pow2_pos [of k] by (intro mult_strict_right_mono) simp_all
  then have hi: "x < pow2 (b - 1 + k + 1)" by (simp add: pow2_add [symmetric])
  have e0: "binade x = b - 1 + k" by (rule binade_unique [OF lo hi])
  define e where "e = max emin (binade x)"
  define j where "j = k - (e - int p + 1)"
  have j0: "0 \<le> j" using k bp by (simp add: j_def e_def e0 max_def)
  have "pow2 k = pow2 (j + (e - int p + 1))" by (simp add: j_def)
  then have pk: "pow2 k = pow2 j * pow2 (e - int p + 1)" by (simp only: pow2_add)
  have up: "0 < pow2 (e - int p + 1)" by (rule pow2_pos)
  have q: "x / pow2 (e - int p + 1) = real_of_int (m * 2 ^ nat j)"
    using up by (simp add: x pk pow2_nat [OF j0])
  have y: "real_of_int (round_half_even (x / pow2 (e - int p + 1))) * pow2 (e - int p + 1) = x"
    unfolding q round_half_even_of_int using up by (simp add: x pk pow2_nat [OF j0])
  show ?thesis
    using pos no y by (simp add: round_binary_def Let_def e_def)
qed


lemma round_half_even_le: "x \<le> real_of_int N \<Longrightarrow> round_half_even x \<le> N"
  unfolding round_half_even_def Let_def by (auto; linarith)

lemma round_binary_minus:
  "round_binary p emin emax (- x) = num_neg (round_binary p emin emax x)"
  by (simp add: round_binary_def Let_def signed_inf_def)

text \<open>What rounding gives, when it is finite: an integer of at most \<open>p\<close> bits, scaled.\<close>

lemma round_binary_form:
  assumes "round_binary p emin emax x = Fin v" and "x \<noteq> 0"
  obtains n k where "0 \<le> n" and "n \<le> 2 ^ p" and "emin - int p + 1 \<le> k"
    and "\<bar>v\<bar> = real_of_int n * pow2 k" and "\<bar>v\<bar> < pow2 (emax + 1)"
proof -
  define e where "e = max emin (binade \<bar>x\<bar>)"
  define ulp where "ulp = pow2 (e - int p + 1)"
  define n where "n = round_half_even (\<bar>x\<bar> / ulp)"
  have up: "0 < ulp" by (simp add: ulp_def pow2_pos)
  have ax: "0 < \<bar>x\<bar>" using assms(2) by simp
  from assms have no: "\<not> pow2 (emax + 1) \<le> real_of_int n * ulp"
    and v: "v = sgn x * (real_of_int n * ulp)"
    by (auto simp: round_binary_def Let_def n_def ulp_def e_def signed_inf_def split: if_splits)
  have n0: "0 \<le> n" unfolding n_def using up by (intro round_half_even_nonneg) simp
  have av: "\<bar>v\<bar> = real_of_int n * ulp"
    using n0 up assms(2) by (simp add: v abs_mult)
  have "\<bar>x\<bar> < pow2 (binade \<bar>x\<bar> + 1)" by (rule binade_bounds(2) [OF ax])
  also have "\<dots> \<le> pow2 (e + 1)" by (intro pow2_mono) (simp add: e_def)
  also have "pow2 (e + 1) = pow2 (int p + (e - int p + 1))" by simp
  also have "\<dots> = pow2 (int p) * ulp" by (simp only: pow2_add ulp_def)
  finally have "\<bar>x\<bar> / ulp < pow2 (int p)" using up by (simp add: divide_less_eq)
  then have "\<bar>x\<bar> / ulp \<le> real_of_int (2 ^ p)" by (simp add: pow2_def)
  then have np: "n \<le> 2 ^ p" unfolding n_def by (rule round_half_even_le)
  show ?thesis
  proof (rule that [of n "e - int p + 1"])
    show "0 \<le> n" by (rule n0)
    show "n \<le> 2 ^ p" by (rule np)
    show "emin - int p + 1 \<le> e - int p + 1" by (simp add: e_def)
    show "\<bar>v\<bar> = real_of_int n * pow2 (e - int p + 1)" by (simp only: av ulp_def)
    show "\<bar>v\<bar> < pow2 (emax + 1)" using no by (simp add: av)
  qed
qed

text \<open>
  The decoder's product: a float32 value times 255 has at most 32 significant bits, so it
  is a double, and the multiplication of the language gives it without rounding.
\<close>

lemma float32_times_255:
  assumes "to_float32 x = Fin v"
  shows "js_mul (Fin v) (Fin 255) = num_mul (Fin v) (Fin 255)"
proof -
  have pos: "to_double (w * 255) = Fin (w * 255)"
    if w: "0 < w" "w = real_of_int n * pow2 k" "0 \<le> n" "n \<le> 2 ^ 24" "- 149 \<le> k" "w < pow2 128"
    for w n k
  proof -
    from w(1,2,3) have n0: "0 < n" by (cases "n = 0") simp_all
    have "255 * n \<le> 255 * 2 ^ 24" using w(4) by simp
    also have "\<dots> < (2::int) ^ 53" by simp
    finally have m: "0 < 255 * n" "255 * n < 2 ^ 53" using n0 by simp_all
    have k: "- 1022 - int 53 + 1 \<le> k" using w(5) by simp
    have eq: "w * 255 = real_of_int (255 * n) * pow2 k" by (simp add: w(2))
    have "w * 255 < pow2 128 * 255" using w(6) by simp
    also have "\<dots> \<le> pow2 128 * pow2 8" by (simp add: pow2_def)
    also have "\<dots> = pow2 136" by (simp only: pow2_add [symmetric]) simp
    also have "\<dots> \<le> pow2 (1023 + 1)" by (intro pow2_mono) simp
    finally have no: "w * 255 < pow2 (1023 + 1)" .
    show ?thesis
      unfolding to_double_def by (rule round_binary_exact [OF m k eq no])
  qed
  have "to_double (v * 255) = Fin (v * 255)"
  proof (cases "x = 0 \<or> v = 0")
    case True
    with assms have "v = 0" by (auto simp: to_float32_def round_binary_def)
    then show ?thesis by simp
  next
    case False
    then have x0: "x \<noteq> 0" and v0: "v \<noteq> 0" by simp_all
    from round_binary_form [OF assms [unfolded to_float32_def] x0]
    obtain n k where nk: "0 \<le> n" "n \<le> 2 ^ 24" "- 126 - int 24 + 1 \<le> k"
      "\<bar>v\<bar> = real_of_int n * pow2 k" "\<bar>v\<bar> < pow2 (127 + 1)"
      by blast
    from nk(3) have k: "- 149 \<le> k" by simp
    from nk(5) have b: "\<bar>v\<bar> < pow2 128" by simp
    from v0 have av: "0 < \<bar>v\<bar>" by simp
    note P = pos [OF av nk(4) nk(1,2) k b]
    show ?thesis
    proof (cases "0 < v")
      case True
      with P show ?thesis by simp
    next
      case False
      with v0 have neg: "\<bar>v\<bar> = - v" by simp
      have "to_double (v * 255) = to_double (- (\<bar>v\<bar> * 255))" by (simp add: neg)
      also have "\<dots> = num_neg (to_double (\<bar>v\<bar> * 255))"
        unfolding to_double_def by (rule round_binary_minus)
      also have "\<dots> = Fin (v * 255)" unfolding P by (simp add: neg)
      finally show ?thesis .
    qed
  qed
  then show ?thesis by (simp add: js_mul_def)
qed

section \<open>Properties of the mask\<close>

lemma length_mask_row: "length (mask_row region w py a) = length a"
proof -
  have "length (fold (\<lambda>px m. m[py * w + px := mask_value region px py]) xs a) = length a"
    for xs
    by (induction xs arbitrary: a) simp_all
  then show ?thesis by (simp add: mask_row_def)
qed

lemma mask_row_prefix_nth:
  "fold (\<lambda>px m. m[py * w + px := mask_value region px py]) [0..<c] a ! k =
     (if py * w \<le> k \<and> k < py * w + c \<and> k < length a
      then mask_value region (k - py * w) py else a ! k)"
proof (induction c)
  case 0
  then show ?case by auto
next
  case (Suc c)
  have len: "length (fold (\<lambda>px m. m[py * w + px := mask_value region px py]) xs a) = length a"
    for xs
    by (induction xs arbitrary: a) simp_all
  show ?case
  proof (cases "k = py * w + c")
    case True
    show ?thesis
    proof (cases "k < length a")
      case True
      with \<open>k = py * w + c\<close> show ?thesis by (simp add: len)
    next
      case False
      with \<open>k = py * w + c\<close> Suc show ?thesis by (simp add: len list_update_beyond)
    qed
  next
    case False
    then show ?thesis using Suc by (auto simp: nth_list_update)
  qed
qed

lemma mask_row_nth:
  "mask_row region w py a ! k =
     (if py * w \<le> k \<and> k < py * w + w \<and> k < length a
      then mask_value region (k - py * w) py else a ! k)"
  by (simp add: mask_row_def mask_row_prefix_nth)

lemma length_mask_rows: "length (fold (mask_row region w) ys a) = length a"
  by (induction ys arbitrary: a) (simp_all add: length_mask_row)

lemma pixel_index_less: "px < w \<Longrightarrow> py < h \<Longrightarrow> py * w + px < h * (w::nat)"
proof -
  assume a: "px < w" "py < h"
  then have "py * w + px < Suc py * w" by simp
  also have "\<dots> \<le> h * w" using a by (intro mult_le_mono1) simp
  finally show ?thesis .
qed

lemma mask_rows_nth:
  assumes "px < w" "py < r" "r * w \<le> length a"
  shows "fold (mask_row region w) [0..<r] a ! (py * w + px) = mask_value region px py"
  using assms
proof (induction r)
  case 0
  then show ?case by simp
next
  case (Suc r)
  have inr: "py * w + px < Suc r * w"
    using pixel_index_less [OF Suc.prems(1) Suc.prems(2)] by (simp add: mult.commute)
  show ?case
  proof (cases "py = r")
    case True
    with Suc.prems inr show ?thesis
      by (simp add: mask_row_nth length_mask_rows)
  next
    case False
    with Suc.prems have lt: "py < r" by simp
    then have "py * w + px < r * w"
      using pixel_index_less [OF Suc.prems(1) lt] by (simp add: mult.commute)
    moreover have "r * w \<le> length a" using Suc.prems by simp
    ultimately show ?thesis
      using Suc.IH [OF Suc.prems(1) lt] by (simp add: mask_row_nth)
  qed
qed

text \<open>
  C1. The mask tensor of \<open>preprocessImage\<close> has one value per pixel, in row-major order;
  the value of pixel \<open>(px, py)\<close> is 1.0 exactly when \<open>py \<ge> region.y\<close> and
  \<open>px \<ge> region.x\<close>, for the region computed from the image's own width and height
  with the narrow ratio, and 0.0 for every other pixel. This holds for an image of any
  size, so in particular for one of \<open>INPUT_SIZE\<close> by \<open>INPUT_SIZE\<close> pixels.
\<close>

theorem preprocessImage_mask:
  assumes "px < width imageData" and "py < height imageData"
  shows "length (tdata (snd (preprocessImage imageData))) = width imageData * height imageData
       \<and> tdata (snd (preprocessImage imageData)) ! (py * width imageData + px) =
           (if region_y (calculateWatermarkRegion (width imageData) (height imageData) None) \<le> int py
             \<and> region_x (calculateWatermarkRegion (width imageData) (height imageData) None) \<le> int px
            then Fin 1 else Fin 0)"
proof -
  have "height imageData * width imageData \<le>
          length (replicate (width imageData * height imageData) (Fin 0))"
    by (simp add: mult.commute)
  from mask_rows_nth [OF assms this]
  show ?thesis
    by (simp add: preprocessImage_def Let_def length_mask_rows mask_value_def)
qed

theorem preprocessImage_mask_witness:
  "(3::nat) < width \<lparr>width = 4, height = 4, data = replicate 64 0\<rparr>
   \<and> (3::nat) < height \<lparr>width = 4, height = 4, data = replicate 64 0\<rparr>
   \<and> tdata (snd (preprocessImage \<lparr>width = 4, height = 4, data = replicate 64 0\<rparr>)) ! 15 = Fin 1"
  using preprocessImage_mask [of 3 "\<lparr>width = 4, height = 4, data = replicate 64 0\<rparr>" 3]
  by (simp add: calculateWatermarkRegion_def WIDTH_RATIO_def HEIGHT_RATIO_def round_def)

section \<open>Writing pixels in a loop\<close>

lemma length_set_rgba [simp]: "length (set_rgba a idx r g b al) = length a"
  by (simp add: set_rgba_def)

lemma set_rgba_nth:
  assumes "k < length a" and "idx mod 4 = 0"
  shows "set_rgba a idx r g b al ! k =
     (if k div 4 = idx div 4 then [r, g, b, al] ! (k mod 4) else a ! k)"
proof (cases "k div 4 = idx div 4")
  case True
  then have k: "k = idx + k mod 4" using assms(2)
    by (metis add.right_neutral div_mult_mod_eq)
  have "k mod 4 = 0 \<or> k mod 4 = 1 \<or> k mod 4 = 2 \<or> k mod 4 = 3" by arith
  then show ?thesis using True k assms
    by (auto simp: set_rgba_def nth_list_update)
next
  case False
  then have "k \<noteq> idx" "k \<noteq> idx + 1" "k \<noteq> idx + 2" "k \<noteq> idx + 3"
    using assms(2) by auto
  then show ?thesis using assms False
    by (simp add: set_rgba_def nth_list_update)
qed

text \<open>A loop that writes pixel \<open>base + j\<close> for each \<open>j < c\<close>.\<close>

lemma length_fold_pixels:
  "length (fold (\<lambda>j a. set_rgba a (idx j) (fr j) (fg j) (fb j) (fa j)) js a) = length a"
  by (induction js arbitrary: a) simp_all

lemma fold_pixels_nth:
  assumes k: "k < length a"
  shows "fold (\<lambda>j a. set_rgba a ((base + j) * 4) (fr j) (fg j) (fb j) (fa j)) [0..<c] a ! k =
     (if base \<le> k div 4 \<and> k div 4 < base + c
      then [fr (k div 4 - base), fg (k div 4 - base), fb (k div 4 - base), fa (k div 4 - base)]
             ! (k mod 4)
      else a ! k)"
proof (induction c)
  case 0
  then show ?case by auto
next
  case (Suc c)
  show ?case
  proof (cases "k div 4 = base + c")
    case True
    then show ?thesis using k
      by (simp add: set_rgba_nth length_fold_pixels)
  next
    case False
    then show ?thesis using k Suc
      by (auto simp: set_rgba_nth length_fold_pixels)
  qed
qed

section \<open>Properties of the decoder\<close>

lemma sample_loop_fold:
  "sample_loop d s i m =
     fold (\<lambda>j acc. Math_max acc (Math_abs (f32_get d j))) [i..<nat \<lceil>s\<rceil>] m"
proof (induction d s i m rule: sample_loop.induct)
  case (1 d s i m)
  show ?case
  proof (cases "real i < s")
    case True
    then have "i < nat \<lceil>s\<rceil>" by linarith
    then have "[i..<nat \<lceil>s\<rceil>] = i # [i + 1..<nat \<lceil>s\<rceil>]"
      by (simp add: upt_conv_Cons)
    with True "1.IH" show ?thesis
      by (subst sample_loop.simps) simp
  next
    case False
    then have "nat \<lceil>s\<rceil> \<le> i" by linarith
    with False show ?thesis
      by (subst sample_loop.simps) simp
  qed
qed

lemma fold_max_abs_Fin:
  "n \<le> length vs \<Longrightarrow>
   fold (\<lambda>j acc. Math_max acc (Math_abs (f32_get (map Fin vs) j))) [0..<n] (Fin m) =
     Fin (fold (\<lambda>v acc. max acc \<bar>v\<bar>) (take n vs) m)"
proof (induction n)
  case 0
  then show ?case by simp
next
  case (Suc n)
  then have "take (Suc n) vs = take n vs @ [vs ! n]"
    by (simp add: take_Suc_conv_app_nth)
  with Suc show ?case by (simp add: f32_get_def)
qed

lemma fold_max_abs_Max:
  "fold (\<lambda>v acc. max acc \<bar>v\<bar>) xs (m::real) = Max (insert m (abs ` set xs))"
proof (induction xs arbitrary: m)
  case Nil
  then show ?case by simp
next
  case (Cons x xs)
  have "Max (insert (max m \<bar>x\<bar>) (abs ` set xs)) = Max (insert m (insert \<bar>x\<bar> (abs ` set xs)))"
    by (cases "set xs = {}") (simp_all add: max.assoc max.commute max.left_commute)
  with Cons show ?case by simp
qed

lemma sample_count_le: "nat \<lceil>min 1000 (real len / 3)\<rceil> \<le> len"
proof -
  have "min 1000 (real len / 3) \<le> real_of_int (int len)" by (simp add: min_def)
  then have "\<lceil>min 1000 (real len / 3)\<rceil> \<le> int len" by (simp only: ceiling_le_iff)
  then show ?thesis by simp
qed

lemma sample_count_le_1000: "nat \<lceil>min 1000 (real len / 3)\<rceil> \<le> 1000"
proof -
  have "min 1000 (real len / 3) \<le> real_of_int 1000" by simp
  then have "\<lceil>min 1000 (real len / 3)\<rceil> \<le> 1000" by (simp only: ceiling_le_iff)
  then show ?thesis by simp
qed

lemma sample_loop_finite:
  "sample_loop (map Fin vs) (min 1000 (real (length vs) / 3)) 0 (Fin 0) =
     Fin (Max (insert 0 (abs ` set (take (nat \<lceil>min 1000 (real (length vs) / 3)\<rceil>) vs))))"
  by (simp only: sample_loop_fold fold_max_abs_Fin [OF sample_count_le] fold_max_abs_Max)

lemma ToUint8Clamp_int:
  "0 \<le> k \<Longrightarrow> k \<le> 255 \<Longrightarrow> ToUint8Clamp (Fin (real_of_int k)) = of_int k"
  by (simp add: Let_def min_def max_def)

lemma clamp_round_Fin:
  "Math_min (Fin 255) (Math_max (Fin 0) (Math_round (Fin c))) =
     Fin (real_of_int (min 255 (max 0 (round c))))"
  by (simp add: min_def max_def)

lemma decode_channel_Fin:
  "decode_channel isNormalized (Fin v) =
     of_int (min 255 (max 0 (round (if isNormalized then v * 255 else v))))"
proof (cases isNormalized)
  case True
  have "decode_channel True (Fin v) = ToUint8Clamp (Fin (real_of_int (min 255 (max 0 (round (v * 255))))))"
    unfolding decode_channel_def Let_def if_True num_mul.simps clamp_round_Fin ..
  also have "\<dots> = of_int (min 255 (max 0 (round (v * 255))))"
    by (rule ToUint8Clamp_int) simp_all
  finally show ?thesis using True by simp
next
  case False
  have "decode_channel False (Fin v) = ToUint8Clamp (Fin (real_of_int (min 255 (max 0 (round v)))))"
    unfolding decode_channel_def Let_def if_False clamp_round_Fin ..
  also have "\<dots> = of_int (min 255 (max 0 (round v)))"
    by (rule ToUint8Clamp_int) simp_all
  finally show ?thesis using False by simp
qed

lemma unat_of_int_byte: "0 \<le> k \<Longrightarrow> k \<le> 255 \<Longrightarrow> unat (of_int k :: byte) = nat k"
  by (simp add: unat_eq_nat_uint uint_word_of_int take_bit_int_eq_self)

lemma decode_loop_nth:
  assumes "k < n * 4"
  shows "fold (decode_pixel d n isNormalized) [0..<n] (replicate (n * 4) 0) ! k =
     [decode_channel isNormalized (f32_get d (k div 4)),
      decode_channel isNormalized (f32_get d (n + k div 4)),
      decode_channel isNormalized (f32_get d (2 * n + k div 4)),
      255] ! (k mod 4)"
proof -
  have step: "decode_pixel d n isNormalized =
      (\<lambda>j a. set_rgba a ((0 + j) * 4)
         (decode_channel isNormalized (f32_get d j))
         (decode_channel isNormalized (f32_get d (n + j)))
         (decode_channel isNormalized (f32_get d (2 * n + j)))
         255)"
    by (simp add: decode_pixel_def fun_eq_iff)
  have "k div 4 < n" using assms by simp
  with assms show ?thesis
    unfolding step by (subst fold_pixels_nth) simp_all
qed

lemma length_decode_loop:
  "length (fold (decode_pixel d n isNormalized) js a) = length a"
  by (induction js arbitrary: a) (simp_all add: decode_pixel_def)

lemma postprocessImage_Inr:
  assumes "0 < w" and "0 < h"
  shows "postprocessImage outputTensor w h =
     Inr \<lparr>width = w, height = h,
          data = fold (decode_pixel (tdata outputTensor) (w * h)
                         (num_le (sample_loop (tdata outputTensor)
                                    (min 1000 (real (length (tdata outputTensor)) / 3)) 0 (Fin 0))
                                 (Fin 2)))
                   [0..<w * h] (replicate (w * h * 4) 0)\<rparr>"
  using assms
  by (simp add: postprocessImage_def Let_def new_ImageData_from_def length_decode_loop
        del: length_0_conv)


lemma postprocessImage_InrD:
  assumes "postprocessImage outputTensor w h = Inr img"
  shows "0 < w \<and> 0 < h"
proof (rule ccontr)
  assume "\<not> (0 < w \<and> 0 < h)"
  then have "w * h * 4 = 0" by auto
  then have "postprocessImage outputTensor w h = Inl IndexSizeError"
    by (simp add: postprocessImage_def Let_def new_ImageData_from_def)
  with assms show False by simp
qed

text \<open>What the decoder writes for pixel \<open>i\<close> when the tensor holds finite values.\<close>

lemma postprocessImage_pixel:
  assumes ret: "postprocessImage outputTensor w h = Inr img"
    and fin: "tdata outputTensor = map Fin vs"
    and len: "3 * (w * h) \<le> length vs"
    and i: "i < w * h"
    and that: "c < 4"
  shows "width img = w \<and> height img = h \<and> length (data img) = w * h * 4"
    and "data img ! (i * 4 + c) =
      [of_int (min 255 (max 0 (round
          (if Max (insert 0 (abs ` set (take (nat \<lceil>min 1000 (real (length vs) / 3)\<rceil>) vs))) \<le> 2
           then vs ! i * 255 else vs ! i)))),
       of_int (min 255 (max 0 (round
          (if Max (insert 0 (abs ` set (take (nat \<lceil>min 1000 (real (length vs) / 3)\<rceil>) vs))) \<le> 2
           then vs ! (w * h + i) * 255 else vs ! (w * h + i))))),
       of_int (min 255 (max 0 (round
          (if Max (insert 0 (abs ` set (take (nat \<lceil>min 1000 (real (length vs) / 3)\<rceil>) vs))) \<le> 2
           then vs ! (2 * (w * h) + i) * 255 else vs ! (2 * (w * h) + i))))),
       255] ! c"
proof -
  from postprocessImage_InrD [OF ret] have pos: "0 < w" "0 < h" by simp_all
  note eq = ret [unfolded postprocessImage_Inr [OF pos]]
  from eq show "width img = w \<and> height img = h \<and> length (data img) = w * h * 4"
    by (auto simp: length_decode_loop)
  have k: "i * 4 + c < w * h * 4" using i that by simp
  have dm: "(i * 4 + c) div 4 = i" "(i * 4 + c) mod 4 = c" using that by simp_all
  have get: "f32_get (map Fin vs) i = Fin (vs ! i)"
    "f32_get (map Fin vs) (w * h + i) = Fin (vs ! (w * h + i))"
    "f32_get (map Fin vs) (2 * (w * h) + i) = Fin (vs ! (2 * (w * h) + i))"
    using len i by (simp_all add: f32_get_def)
  have "data img ! (i * 4 + c) =
      fold (decode_pixel (map Fin vs) (w * h)
              (num_le (sample_loop (map Fin vs) (min 1000 (real (length vs) / 3)) 0 (Fin 0))
                 (Fin 2)))
        [0..<w * h] (replicate (w * h * 4) 0) ! (i * 4 + c)"
    using eq fin by auto
  also note decode_loop_nth [OF k]
  finally show "data img ! (i * 4 + c) = [
       of_int (min 255 (max 0 (round
          (if Max (insert 0 (abs ` set (take (nat \<lceil>min 1000 (real (length vs) / 3)\<rceil>) vs))) \<le> 2
           then vs ! i * 255 else vs ! i)))),
       of_int (min 255 (max 0 (round
          (if Max (insert 0 (abs ` set (take (nat \<lceil>min 1000 (real (length vs) / 3)\<rceil>) vs))) \<le> 2
           then vs ! (w * h + i) * 255 else vs ! (w * h + i))))),
       of_int (min 255 (max 0 (round
          (if Max (insert 0 (abs ` set (take (nat \<lceil>min 1000 (real (length vs) / 3)\<rceil>) vs))) \<le> 2
           then vs ! (2 * (w * h) + i) * 255 else vs ! (2 * (w * h) + i))))),
       255] ! c"
    by (simp only: dm get sample_loop_finite decode_channel_Fin num_le.simps)
qed

text \<open>
  C5. \<open>postprocessImage\<close> samples the first \<open>n\<close> values of the tensor, where \<open>n\<close> is
  the number of indices below \<open>min(1000, length / 3)\<close> and so at most 1000, and keeps
  the largest absolute value \<open>m\<close> among them. If \<open>m \<le> 2\<close> every channel value is
  multiplied by 255, otherwise it is used as it is; either way the channel is rounded to
  the nearest integer and clamped to \<open>[0, 255]\<close>, and the alpha of every pixel is 255.
  The tensor holds finite values and all three planes.
\<close>

theorem postprocessImage_range_detection:
  assumes "0 < w" and "0 < h" and "3 * (w * h) \<le> length vs"
    and "n = nat \<lceil>min 1000 (real (length vs) / 3)\<rceil>"
    and "m = Max (insert 0 (abs ` set (take n vs)))"
  shows "n \<le> 1000 \<and> n \<le> length vs
     \<and> sample_loop (map Fin vs) (min 1000 (real (length vs) / 3)) 0 (Fin 0) = Fin m
     \<and> (\<exists>img. postprocessImage \<lparr>dtype = ty, tdata = map Fin vs, dims = ds\<rparr> w h = Inr img
          \<and> width img = w \<and> height img = h \<and> length (data img) = w * h * 4
          \<and> (\<forall>i<w * h.
                (\<forall>c<3. unat (data img ! (i * 4 + c)) =
                   nat (min 255 (max 0 (round (if m \<le> 2 then vs ! (c * (w * h) + i) * 255
                                               else vs ! (c * (w * h) + i))))))
                \<and> data img ! (i * 4 + 3) = 255))"
proof -
  let ?T = "\<lparr>dtype = ty, tdata = map Fin vs, dims = ds\<rparr>"
  let ?v = "\<lambda>k. min 255 (max 0 (round (if m \<le> 2 then vs ! k * 255 else vs ! k)))"
  obtain img where ret: "postprocessImage ?T w h = Inr img"
    using postprocessImage_Inr [OF assms(1,2)] by blast
  have fin: "tdata ?T = map Fin vs" by simp
  have size: "width img = w \<and> height img = h \<and> length (data img) = w * h * 4"
    using postprocessImage_pixel(1) [OF ret fin assms(3), of 0 0] assms(1,2) by simp
  have rng: "0 \<le> ?v k" "?v k \<le> 255" for k by simp_all
  have m_eq: "Max (insert 0 (abs ` set (take (nat \<lceil>min 1000 (real (length vs) / 3)\<rceil>) vs))) = m"
    unfolding assms(4,5) ..
  have px: "(\<forall>c<3. unat (data img ! (i * 4 + c)) = nat (?v (c * (w * h) + i)))
            \<and> data img ! (i * 4 + 3) = 255" if i: "i < w * h" for i
  proof -
    note P = postprocessImage_pixel(2) [OF ret fin assms(3) i, unfolded m_eq]
    have c0: "data img ! (i * 4 + 0) = of_int (?v i)"
      using P [of 0] by simp
    have c1: "data img ! (i * 4 + 1) = of_int (?v (w * h + i))"
      using P [of 1] by simp
    have c2: "data img ! (i * 4 + 2) = of_int (?v (2 * (w * h) + i))"
      using P [of 2] by simp
    have c3: "data img ! (i * 4 + 3) = 255"
      using P [of 3] by simp
    have u0: "unat (data img ! (i * 4 + 0)) = nat (?v (0 * (w * h) + i))"
      unfolding c0 using unat_of_int_byte [OF rng, of i] by simp
    have u1: "unat (data img ! (i * 4 + 1)) = nat (?v (1 * (w * h) + i))"
      unfolding c1 using unat_of_int_byte [OF rng, of "w * h + i"] by simp
    have u2: "unat (data img ! (i * 4 + 2)) = nat (?v (2 * (w * h) + i))"
      unfolding c2 by (rule unat_of_int_byte [OF rng])
    have "unat (data img ! (i * 4 + c)) = nat (?v (c * (w * h) + i))" if "c < 3" for c
    proof -
      from that have "c = 0 \<or> c = 1 \<or> c = 2" by arith
      then show ?thesis using u0 u1 u2 by blast
    qed
    with c3 show ?thesis by blast
  qed
  have sl: "sample_loop (map Fin vs) (min 1000 (real (length vs) / 3)) 0 (Fin 0) = Fin m"
    unfolding assms(4,5) by (rule sample_loop_finite)
  have n: "n \<le> 1000" "n \<le> length vs"
    unfolding assms(4) by (rule sample_count_le_1000, rule sample_count_le)
  from px have all: "\<forall>i<w * h. (\<forall>c<3. unat (data img ! (i * 4 + c)) = nat (?v (c * (w * h) + i)))
            \<and> data img ! (i * 4 + 3) = 255" by blast
  show ?thesis
    by (intro conjI exI [of _ img]) (rule n sl ret all | simp add: size)+
qed

theorem postprocessImage_range_detection_witness:
  "\<exists>img. postprocessImage \<lparr>dtype = ''float32'', tdata = map Fin [1 / 2, 2, 1 / 4], dims = [1, 3, 1, 1]\<rparr> 1 1
            = Inr img
        \<and> unat (data img ! 0) = 128 \<and> unat (data img ! 1) = 255 \<and> unat (data img ! 2) = 64
        \<and> data img ! 3 = 255"
proof -
  have n: "(1::nat) = nat \<lceil>min 1000 (real (length [1 / 2, 2, 1 / 4 :: real]) / 3)\<rceil>"
    by simp
  have m: "(1 / 2 :: real) = Max (insert 0 (abs ` set (take 1 [1 / 2, 2, 1 / 4])))"
    by simp
  have len: "3 * (1 * 1) \<le> length [1 / 2, 2, 1 / 4 :: real]" by simp
  from postprocessImage_range_detection [OF _ _ len n m, of "''float32''" "[1, 3, 1, 1]"]
  obtain img where
    ret: "postprocessImage \<lparr>dtype = ''float32'', tdata = map Fin [1 / 2, 2, 1 / 4], dims = [1, 3, 1, 1]\<rparr> 1 1
            = Inr img"
    and px: "\<forall>i<1 * 1.
                (\<forall>c<3. unat (data img ! (i * 4 + c)) =
                   nat (min 255 (max 0 (round (if (1 / 2 :: real) \<le> 2
                      then [1 / 2, 2, 1 / 4 :: real] ! (c * (1 * 1) + i) * 255
                      else [1 / 2, 2, 1 / 4 :: real] ! (c * (1 * 1) + i))))))
                \<and> data img ! (i * 4 + 3) = 255"
    by auto
  from px have "unat (data img ! 0) = 128" "unat (data img ! 1) = 255"
    "unat (data img ! 2) = 64" "data img ! 3 = 255"
    by (auto simp: round_def dest!: spec [where x = 0])
  with ret show ?thesis by blast
qed

section \<open>Properties of the encoder, and the round trip\<close>

lemma length_fill_planes: "length (fold (fill_planes d n) js a) = length a"
  by (induction js arbitrary: a) (simp_all add: fill_planes_def)

lemma fill_planes_step_nth:
  assumes "c < n" and "k < length b" and "length b = 3 * n"
  shows "fill_planes d n c b ! k =
     (if k = c then f32_store (js_div (u8_get d (c * 4)) (Fin 255))
      else if k = n + c then f32_store (js_div (u8_get d (c * 4 + 1)) (Fin 255))
      else if k = 2 * n + c then f32_store (js_div (u8_get d (c * 4 + 2)) (Fin 255))
      else b ! k)"
  using assms by (auto simp: fill_planes_def nth_list_update)

lemma fill_planes_nth:
  assumes "c \<le> n" and "k < length a" and "length a = 3 * n"
  shows "fold (fill_planes d n) [0..<c] a ! k =
     (if k < c then f32_store (js_div (u8_get d (k * 4)) (Fin 255))
      else if n \<le> k \<and> k < n + c then f32_store (js_div (u8_get d ((k - n) * 4 + 1)) (Fin 255))
      else if 2 * n \<le> k \<and> k < 2 * n + c then f32_store (js_div (u8_get d ((k - 2 * n) * 4 + 2)) (Fin 255))
      else a ! k)"
  using assms
proof (induction c)
  case 0
  then show ?case by auto
next
  case (Suc c)
  then have IH: "fold (fill_planes d n) [0..<c] a ! k =
     (if k < c then f32_store (js_div (u8_get d (k * 4)) (Fin 255))
      else if n \<le> k \<and> k < n + c then f32_store (js_div (u8_get d ((k - n) * 4 + 1)) (Fin 255))
      else if 2 * n \<le> k \<and> k < 2 * n + c then f32_store (js_div (u8_get d ((k - 2 * n) * 4 + 2)) (Fin 255))
      else a ! k)"
    by simp
  have len: "length (fold (fill_planes d n) [0..<c] a) = 3 * n"
    using Suc.prems by (simp add: length_fill_planes)
  have c: "c < n" using Suc.prems by simp
  have k: "k < length (fold (fill_planes d n) [0..<c] a)"
    using Suc.prems len by simp
  have "fold (fill_planes d n) [0..<Suc c] a ! k =
          fill_planes d n c (fold (fill_planes d n) [0..<c] a) ! k"
    by simp
  also note fill_planes_step_nth [OF c k len]
  finally show ?case using c by (auto simp: IH)
qed

text \<open>The image tensor of a well-formed image: three planes of float32 values.\<close>

lemma preprocessImage_planes:
  assumes wf: "length (data imageData) = 4 * (width imageData * height imageData)"
    and i: "i < width imageData * height imageData"
    and c: "c < 3"
  shows "length (tdata (fst (preprocessImage imageData))) = 3 * (width imageData * height imageData)"
    and "tdata (fst (preprocessImage imageData)) ! (c * (width imageData * height imageData) + i) =
           f32_store (js_div (Fin (real (unat (data imageData ! (i * 4 + c))))) (Fin 255))"
proof -
  define n where "n = width imageData * height imageData"
  define a where "a = replicate (3 * n) (Fin 0)"
  have t: "tdata (fst (preprocessImage imageData)) = fold (fill_planes (data imageData) n) [0..<n] a"
    by (simp add: preprocessImage_def Let_def n_def a_def mult.assoc)
  have la: "length a = 3 * n" by (simp add: a_def)
  have i': "i < n" using i by (simp add: n_def)
  have wf': "length (data imageData) = 4 * n" using wf by (simp add: n_def)
  show "length (tdata (fst (preprocessImage imageData))) = 3 * (width imageData * height imageData)"
    by (simp add: t length_fill_planes la n_def [symmetric])
  from c have cs: "c = 0 \<or> c = 1 \<or> c = 2" by arith
  then have k: "c * n + i < length a" using i' la by auto
  have "fold (fill_planes (data imageData) n) [0..<n] a ! (c * n + i) =
           f32_store (js_div (Fin (real (unat (data imageData ! (i * 4 + c))))) (Fin 255))"
    unfolding fill_planes_nth [OF le_refl k la]
    using cs i' wf' by (auto simp: u8_get_def)
  then show "tdata (fst (preprocessImage imageData)) ! (c * (width imageData * height imageData) + i) =
           f32_store (js_div (Fin (real (unat (data imageData ! (i * 4 + c))))) (Fin 255))"
    by (simp add: t n_def [symmetric])
qed

lemma real_unat_byte:
  obtains k where "real (unat (b::byte)) = real_of_int k" and "0 \<le> k" and "k \<le> 255"
    and "(of_int k :: byte) = b"
proof -
  have "uint b < 256" using uint_bounded [of b] by simp
  then have "uint b \<le> 255" by simp
  moreover have "real (unat b) = real_of_int (uint b)" by (simp add: of_int_uint)
  ultimately show ?thesis using that [of "uint b"] by simp
qed

lemma byte_over_255: "0 \<le> real (unat (b::byte)) / 255 \<and> real (unat b) / 255 \<le> 1"
proof -
  obtain k where k: "real (unat b) = real_of_int k" "0 \<le> k" "k \<le> 255"
    by (rule real_unat_byte)
  show ?thesis unfolding k(1) using k(2,3) by simp
qed

text \<open>
  What the encoder stores for a byte \<open>b\<close>: a float32 within \<open>2\<^sup>-\<^sup>2\<^sup>3\<close> of \<open>b / 255\<close>, the
  quotient being rounded to a double and then to a float32. The decoder's product of it
  with 255 is exact.
\<close>

lemma encoded_byte:
  obtains v where "f32_store (js_div (Fin (real (unat (b::byte)))) (Fin 255)) = Fin v"
    and "0 \<le> v" and "\<bar>v - real (unat b) / 255\<bar> \<le> 1 / 2 ^ 23"
    and "js_mul (Fin v) (Fin 255) = num_mul (Fin v) (Fin 255)"
proof -
  define q where "q = real (unat b) / 255"
  have q: "0 \<le> q" "q \<le> 1" using byte_over_255 [of b] by (simp_all add: q_def)
  then have "q < 2" by simp
  from round_binary_error [OF q(1) this, of "- 1022" 1023 53]
  obtain v1 where v1: "to_double q = Fin v1" "0 \<le> v1" "\<bar>v1 - q\<bar> \<le> 1 / 2 ^ 53"
    by (auto simp: to_double_def)
  have "(1::real) / 2 ^ 53 < 1" by simp
  with v1(3) q(2) have "v1 < 2" by linarith
  from round_binary_error [OF v1(2) this, of "- 126" 127 24]
  obtain v2 where v2: "to_float32 v1 = Fin v2" "0 \<le> v2" "\<bar>v2 - v1\<bar> \<le> 1 / 2 ^ 24"
    by (auto simp: to_float32_def)
  have jd: "js_div (Fin (real (unat b))) (Fin 255) = to_double q"
    unfolding js_div_def q_def by simp
  have "f32_store (js_div (Fin (real (unat b))) (Fin 255)) = Fin v2"
    unfolding f32_store_def jd v1(1) num_round.simps v2(1) ..
  moreover have "(1::real) / 2 ^ 53 + 1 / 2 ^ 24 \<le> 1 / 2 ^ 23" by simp
  with v1(3) v2(3) have "\<bar>v2 - q\<bar> \<le> 1 / 2 ^ 23" by linarith
  moreover note float32_times_255 [OF v2(1)]
  ultimately show ?thesis using that v2(2) by (simp add: q_def)
qed

text \<open>Multiplied by 255 and rounded to the nearest integer, such a value gives \<open>b\<close> back.\<close>

lemma decode_encoded_byte:
  assumes "\<bar>v - real (unat (b::byte)) / 255\<bar> \<le> 1 / 2 ^ 23"
  shows "(of_int (min 255 (max 0 (round (v * 255)))) :: byte) = b"
proof -
  obtain k where k: "real (unat b) = real_of_int k" "0 \<le> k" "k \<le> 255" "(of_int k :: byte) = b"
    by (rule real_unat_byte)
  have "(255::real) / 2 ^ 23 < 1 / 2" by simp
  moreover from assms have "\<bar>v - real_of_int k / 255\<bar> * 255 \<le> 1 / 2 ^ 23 * 255"
    unfolding k(1) by (intro mult_right_mono) simp_all
  moreover have "\<bar>v - real_of_int k / 255\<bar> * 255 = \<bar>v * 255 - real_of_int k\<bar>"
  proof -
    have "(v - real_of_int k / 255) * 255 = v * 255 - real_of_int k" by (simp add: left_diff_distrib)
    then have "\<bar>v * 255 - real_of_int k\<bar> = \<bar>v - real_of_int k / 255\<bar> * \<bar>255\<bar>"
      by (simp only: abs_mult [symmetric])
    then show ?thesis by simp
  qed
  ultimately have "\<bar>v * 255 - real_of_int k\<bar> < 1 / 2" by simp
  then have "v * 255 - 1 / 2 < real_of_int k" "real_of_int k \<le> v * 255 + 1 / 2"
    by linarith+
  then have "round (v * 255) = k"
    by (rule round_unique)
  then have "min 255 (max 0 (round (v * 255))) = k"
    using k(2,3) by simp
  then show ?thesis using k(4) by simp
qed

text \<open>Decoding the image tensor of a well-formed image gives back its colour channels.\<close>

lemma roundtrip_exact:
  assumes pos: "0 < width imageData" "0 < height imageData"
    and wf: "length (data imageData) = 4 * (width imageData * height imageData)"
    and i: "i < width imageData * height imageData"
  shows "\<exists>out. postprocessImage (fst (preprocessImage imageData)) (width imageData) (height imageData)
                 = Inr out
          \<and> width out = width imageData \<and> height out = height imageData
          \<and> (\<forall>c<3. data out ! (i * 4 + c) = data imageData ! (i * 4 + c))
          \<and> data out ! (i * 4 + 3) = 255"
proof -
  have "\<exists>v. f32_store (js_div (Fin (real (unat b))) (Fin 255)) = Fin v
           \<and> 0 \<le> v \<and> \<bar>v - real (unat b) / 255\<bar> \<le> 1 / 2 ^ 23" for b :: byte
    using encoded_byte [of b] by blast
  then obtain ev where ev: "\<And>b::byte. f32_store (js_div (Fin (real (unat b))) (Fin 255)) = Fin (ev b)"
      "\<And>b::byte. 0 \<le> ev b" "\<And>b::byte. \<bar>ev b - real (unat b) / 255\<bar> \<le> 1 / 2 ^ 23"
    by metis
  define n where "n = width imageData * height imageData"
  define d where "d = data imageData"
  define vs where "vs = map (\<lambda>k. ev (d ! ((k mod n) * 4 + k div n))) [0..<3 * n]"
  let ?T = "fst (preprocessImage imageData)"
  have n: "0 < n" using pos by (simp add: n_def)
  have i': "i < n" using i by (simp add: n_def)
  have lvs: "length vs = 3 * n" by (simp add: vs_def)
  have vs_nth: "vs ! (c * n + j) = ev (d ! (j * 4 + c))" if "c < 3" "j < n" for c j
  proof -
    from that have "c = 0 \<or> c = 1 \<or> c = 2" by arith
    with that have "c * n + j < 3 * n" by auto
    then show ?thesis using that by (simp add: vs_def)
  qed
  have fin: "tdata ?T = map Fin vs"
  proof (rule nth_equalityI)
    show "length (tdata ?T) = length (map Fin vs)"
      using preprocessImage_planes(1) [OF wf i, of 0] by (simp add: lvs n_def)
  next
    fix k assume "k < length (tdata ?T)"
    then have k: "k < 3 * n"
      using preprocessImage_planes(1) [OF wf i, of 0] by (simp add: n_def)
    have j: "k mod n < width imageData * height imageData" using n by (simp add: n_def)
    have c: "k div n < 3" using k n by (simp add: less_mult_imp_div_less mult.commute)
    have "tdata ?T ! (k div n * n + k mod n) = Fin (ev (d ! ((k mod n) * 4 + k div n)))"
      using preprocessImage_planes(2) [OF wf j c] by (simp only: n_def d_def ev(1))
    then show "tdata ?T ! k = map Fin vs ! k" using k by (simp add: vs_def)
  qed
  obtain out where ret: "postprocessImage ?T (width imageData) (height imageData) = Inr out"
    using postprocessImage_Inr [OF pos] by blast
  have len: "3 * (width imageData * height imageData) \<le> length vs"
    by (simp add: lvs n_def)
  have bound: "\<bar>v\<bar> \<le> 2" if "v \<in> set vs" for v
  proof -
    from that obtain b where v: "v = ev b" by (auto simp: vs_def)
    have "(1::real) / 2 ^ 23 \<le> 1" by simp
    with ev(3) [of b] byte_over_255 [of b] have "ev b \<le> 2" by linarith
    with ev(2) [of b] show ?thesis unfolding v by simp
  qed
  have norm: "Max (insert 0 (abs ` set (take (nat \<lceil>min 1000 (real (length vs) / 3)\<rceil>) vs))) \<le> 2"
  proof (subst Max_le_iff)
    show "finite (insert 0 (abs ` set (take (nat \<lceil>min 1000 (real (length vs) / 3)\<rceil>) vs)))"
      by simp
    show "insert 0 (abs ` set (take (nat \<lceil>min 1000 (real (length vs) / 3)\<rceil>) vs)) \<noteq> {}"
      by simp
    show "\<forall>a\<in>insert 0 (abs ` set (take (nat \<lceil>min 1000 (real (length vs) / 3)\<rceil>) vs)). a \<le> 2"
      using bound by (auto dest: in_set_takeD)
  qed
  note P = postprocessImage_pixel [OF ret fin len i]
  have v0: "vs ! i = ev (d ! (i * 4 + 0))"
    using vs_nth [of 0 i] i' by simp
  have v1: "vs ! (width imageData * height imageData + i) = ev (d ! (i * 4 + 1))"
    using vs_nth [of 1 i] i' by (simp add: n_def)
  have v2: "vs ! (2 * (width imageData * height imageData) + i) = ev (d ! (i * 4 + 2))"
    using vs_nth [of 2 i] i' by (simp add: n_def)
  have c0: "data out ! (i * 4 + 0) = d ! (i * 4 + 0)"
    using P(2) [of 0] norm by (simp add: v0 decode_encoded_byte [OF ev(3)])
  have c1: "data out ! (i * 4 + 1) = d ! (i * 4 + 1)"
    using P(2) [of 1] norm by (simp add: v1 decode_encoded_byte [OF ev(3)])
  have c2: "data out ! (i * 4 + 2) = d ! (i * 4 + 2)"
    using P(2) [of 2] norm by (simp add: v2 decode_encoded_byte [OF ev(3)])
  have c3: "data out ! (i * 4 + 3) = 255"
    using P(2) [of 3] by simp
  have "data out ! (i * 4 + c) = data imageData ! (i * 4 + c)" if "c < 3" for c
  proof -
    from that have "c = 0 \<or> c = 1 \<or> c = 2" by arith
    then show ?thesis using c0 c1 c2 unfolding d_def by blast
  qed
  then have all: "\<forall>c<3. data out ! (i * 4 + c) = data imageData ! (i * 4 + c)" by blast
  have size: "width out = width imageData" "height out = height imageData"
    using P(1) [of 0] by simp_all
  show ?thesis
    by (intro exI [of _ out] conjI) (rule ret size all c3)+
qed

text \<open>
  C8. For a well-formed image, \<open>preprocessImage\<close> writes the red, green and blue byte of
  pixel \<open>i\<close>, divided by 255, at index \<open>i\<close> of three contiguous planes and drops alpha;
  each value written is the quotient rounded to a double and then to a float32, a finite
  number within \<open>2\<^sup>-\<^sup>2\<^sup>3\<close> of the exact quotient, whose product with 255 is a double.
  Decoding that tensor with \<open>postprocessImage\<close> returns an image whose red, green and
  blue values differ from the original ones by at most 1, with alpha 255.
\<close>

theorem encode_decode_roundtrip:
  assumes "0 < width imageData" and "0 < height imageData"
    and "length (data imageData) = 4 * (width imageData * height imageData)"
    and "i < width imageData * height imageData"
  shows "length (tdata (fst (preprocessImage imageData))) = 3 * (width imageData * height imageData)
     \<and> (\<forall>c<3. tdata (fst (preprocessImage imageData)) ! (c * (width imageData * height imageData) + i)
                 = f32_store (js_div (Fin (real (unat (data imageData ! (i * 4 + c))))) (Fin 255))
              \<and> (\<exists>v. tdata (fst (preprocessImage imageData))
                        ! (c * (width imageData * height imageData) + i) = Fin v
                      \<and> \<bar>v - real (unat (data imageData ! (i * 4 + c))) / 255\<bar> \<le> 1 / 2 ^ 23
                      \<and> js_mul (Fin v) (Fin 255) = num_mul (Fin v) (Fin 255)))
     \<and> (\<exists>out. postprocessImage (fst (preprocessImage imageData)) (width imageData) (height imageData)
                 = Inr out
          \<and> width out = width imageData \<and> height out = height imageData
          \<and> (\<forall>c<3. \<bar>int (unat (data out ! (i * 4 + c))) - int (unat (data imageData ! (i * 4 + c)))\<bar> \<le> 1)
          \<and> data out ! (i * 4 + 3) = 255)"
proof -
  from roundtrip_exact [OF assms] obtain out where
    ret: "postprocessImage (fst (preprocessImage imageData)) (width imageData) (height imageData) = Inr out"
    and size: "width out = width imageData" "height out = height imageData"
    and eq: "\<forall>c<3. data out ! (i * 4 + c) = data imageData ! (i * 4 + c)"
    and al: "data out ! (i * 4 + 3) = 255"
    by blast
  from eq have near:
    "\<forall>c<3. \<bar>int (unat (data out ! (i * 4 + c))) - int (unat (data imageData ! (i * 4 + c)))\<bar> \<le> 1"
    by simp
  have planes: "\<forall>c<3. tdata (fst (preprocessImage imageData)) ! (c * (width imageData * height imageData) + i)
                 = f32_store (js_div (Fin (real (unat (data imageData ! (i * 4 + c))))) (Fin 255))
              \<and> (\<exists>v. tdata (fst (preprocessImage imageData))
                        ! (c * (width imageData * height imageData) + i) = Fin v
                      \<and> \<bar>v - real (unat (data imageData ! (i * 4 + c))) / 255\<bar> \<le> 1 / 2 ^ 23
                      \<and> js_mul (Fin v) (Fin 255) = num_mul (Fin v) (Fin 255))"
  proof (intro allI impI)
    fix c :: nat assume c: "c < 3"
    note p = preprocessImage_planes(2) [OF assms(3,4) c]
    obtain v where "f32_store (js_div (Fin (real (unat (data imageData ! (i * 4 + c))))) (Fin 255)) = Fin v"
      and "\<bar>v - real (unat (data imageData ! (i * 4 + c))) / 255\<bar> \<le> 1 / 2 ^ 23"
      and "js_mul (Fin v) (Fin 255) = num_mul (Fin v) (Fin 255)"
      by (rule encoded_byte)
    with p show "tdata (fst (preprocessImage imageData)) ! (c * (width imageData * height imageData) + i)
                 = f32_store (js_div (Fin (real (unat (data imageData ! (i * 4 + c))))) (Fin 255))
              \<and> (\<exists>v. tdata (fst (preprocessImage imageData))
                        ! (c * (width imageData * height imageData) + i) = Fin v
                      \<and> \<bar>v - real (unat (data imageData ! (i * 4 + c))) / 255\<bar> \<le> 1 / 2 ^ 23
                      \<and> js_mul (Fin v) (Fin 255) = num_mul (Fin v) (Fin 255))"
      by simp
  qed
  show ?thesis
    by (intro conjI exI [of _ out])
       (rule preprocessImage_planes(1) [OF assms(3,4), of 0] planes ret size near al | simp)+
qed

lemma example_float32: "f32_store (js_div (Fin 20) (Fin 255)) = Fin (10526881 / 134217728)"
proof -
  have 1: "to_double (20 / 255) = Fin (1412894000743685 / 18014398509481984)"
    by (simp add: to_double_def round_binary_def Let_def binade_def bit_length.simps pow2_def
          round_half_even_def)
  have 2: "to_float32 (1412894000743685 / 18014398509481984) = Fin (10526881 / 134217728)"
    by (simp add: to_float32_def round_binary_def Let_def binade_def bit_length.simps pow2_def
          round_half_even_def)
  have 0: "num_div (Fin 20) (Fin 255) = Fin (20 / 255)" by simp
  show ?thesis
    unfolding f32_store_def js_div_def 0 num_round.simps 1 2 ..
qed

theorem encode_decode_roundtrip_witness:
  "length (data \<lparr>width = 1, height = 1, data = [10, 20, 30, 40]\<rparr>) = 4 * (1 * 1)
   \<and> tdata (fst (preprocessImage \<lparr>width = 1, height = 1, data = [10, 20, 30, 40]\<rparr>)) ! 1
        = Fin (10526881 / 134217728)
   \<and> (\<exists>out. postprocessImage (fst (preprocessImage \<lparr>width = 1, height = 1, data = [10, 20, 30, 40]\<rparr>)) 1 1
                 = Inr out
          \<and> \<bar>int (unat (data out ! 1)) - 20\<bar> \<le> 1
          \<and> data out ! 3 = 255)"
proof -
  let ?img = "\<lparr>width = 1, height = 1, data = [10, 20, 30, 40 :: byte]\<rparr>"
  have wf: "length (data ?img) = 4 * (width ?img * height ?img)" by simp
  from encode_decode_roundtrip [of ?img 0, OF _ _ wf]
  obtain out where
    planes: "\<forall>c<3. tdata (fst (preprocessImage ?img)) ! (c * (width ?img * height ?img) + 0)
                 = f32_store (js_div (Fin (real (unat (data ?img ! (0 * 4 + c))))) (Fin 255))"
    and ret: "postprocessImage (fst (preprocessImage ?img)) (width ?img) (height ?img) = Inr out"
    and near: "\<forall>c<3. \<bar>int (unat (data out ! (0 * 4 + c))) - int (unat (data ?img ! (0 * 4 + c)))\<bar> \<le> 1"
    and al: "data out ! (0 * 4 + 3) = 255"
    by auto
  from planes have "tdata (fst (preprocessImage ?img)) ! 1 = f32_store (js_div (Fin 20) (Fin 255))"
    by (auto dest!: spec [where x = 1])
  then have "tdata (fst (preprocessImage ?img)) ! 1 = Fin (10526881 / 134217728)"
    by (simp only: example_float32)
  moreover from near have "\<bar>int (unat (data out ! 1)) - 20\<bar> \<le> 1"
    by (auto dest!: spec [where x = 1])
  ultimately show ?thesis using ret al by auto
qed

section \<open>The blend weight\<close>

lemma smoothstep_mono:
  assumes "0 \<le> a" and "a \<le> b" and "b \<le> (1::real)"
  shows "a * a * (3 - 2 * a) \<le> b * b * (3 - 2 * b)"
proof -
  have eq: "b * b * (3 - 2 * b) - a * a * (3 - 2 * a) =
              (b - a) * (3 * (a + b) - 2 * (a * a + a * b + b * b))"
    by (simp add: algebra_simps)
  have "a * a \<le> a * 1" using assms by (intro mult_left_mono) simp_all
  moreover have b0: "0 \<le> b" using assms by simp
  then have "b * b \<le> b * 1" using assms by (intro mult_left_mono) simp_all
  moreover have "a * b \<le> a * 1" using assms by (intro mult_left_mono) simp_all
  moreover have "a * b \<le> 1 * b" using assms b0 by (intro mult_right_mono) simp_all
  ultimately have "0 \<le> 3 * (a + b) - 2 * (a * a + a * b + b * b)" by simp
  moreover have "0 \<le> b - a" using assms by simp
  ultimately have "0 \<le> (b - a) * (3 * (a + b) - 2 * (a * a + a * b + b * b))"
    by (rule mult_nonneg_nonneg [rotated])
  with eq show ?thesis by simp
qed

lemma blend_alpha_zone:
  assumes "0 < d" and "d < f"
  shows "blend_alpha f d = 1 - (d / f) * (d / f) * (3 - 2 * (d / f))"
    and "0 \<le> blend_alpha f d" and "blend_alpha f d \<le> 1"
proof -
  have t: "0 \<le> d / f" "d / f \<le> 1" using assms by simp_all
  show eq: "blend_alpha f d = 1 - (d / f) * (d / f) * (3 - 2 * (d / f))"
    using assms by (simp add: blend_alpha_def Let_def)
  from smoothstep_mono [OF t(1) t(2) order_refl]
  show "0 \<le> blend_alpha f d" unfolding eq by simp
  from smoothstep_mono [OF order_refl t(1) t(2)]
  show "blend_alpha f d \<le> 1" unfolding eq by simp
qed

lemma blend_alpha_antimono:
  assumes "0 \<le> d1" and "d1 \<le> d2"
  shows "blend_alpha f d2 \<le> blend_alpha f d1"
proof -
  consider "d2 \<le> 0" | "d1 \<le> 0" "0 < d2" "f \<le> d2" | "d1 \<le> 0" "0 < d2" "d2 < f"
    | "0 < d1" "f \<le> d1" | "0 < d1" "d1 < f" "f \<le> d2" | "0 < d1" "d2 < f"
    by linarith
  then show ?thesis
  proof cases
    case 1
    with assms show ?thesis by (simp add: blend_alpha_def)
  next
    case 2
    then show ?thesis by (simp add: blend_alpha_def)
  next
    case 3
    from blend_alpha_zone(3) [OF 3(2,3)] 3(1) show ?thesis by (simp add: blend_alpha_def)
  next
    case 4
    with assms show ?thesis by (simp add: blend_alpha_def)
  next
    case 5
    from blend_alpha_zone(2) [OF 5(1,2)] 5 show ?thesis by (simp add: blend_alpha_def)
  next
    case 6
    then have d2: "0 < d2" "d1 < f" "0 < f" using assms by simp_all
    have "d1 / f \<le> d2 / f" using assms d2 by (simp add: divide_right_mono)
    moreover have "0 \<le> d1 / f" "d2 / f \<le> 1" using 6 d2 by simp_all
    ultimately have "(d1 / f) * (d1 / f) * (3 - 2 * (d1 / f)) \<le> (d2 / f) * (d2 / f) * (3 - 2 * (d2 / f))"
      by (intro smoothstep_mono)
    then show ?thesis
      unfolding blend_alpha_zone(1) [OF 6(1) d2(2)] blend_alpha_zone(1) [OF d2(1) 6(2)] by simp
  qed
qed

text \<open>
  C6, as stated, fails where the two boundary cases overlap: with a feather of 0 the
  distance 0 is both \<open>\<le> 0\<close> and \<open>\<ge> featherSize\<close>, and the code tests \<open>\<le> 0\<close> first.
\<close>

theorem blend_alpha_boundary_counterexample:
  "(0::real) \<ge> 0 \<and> blend_alpha 0 0 \<noteq> 0"
  by (simp add: blend_alpha_def)

text \<open>
  C6, amended. The blend weight is 1 when \<open>dist \<le> 0\<close>; it is 0 when
  \<open>dist \<ge> featherSize\<close> and \<open>dist > 0\<close>; in between it is \<open>1 - t\<^sup>2(3 - 2t)\<close> with
  \<open>t = dist / featherSize\<close>; and it never increases with the distance over \<open>[0, \<infinity>)\<close>.
\<close>

theorem blend_alpha_smoothstep:
  "(distFromCore \<le> 0 \<longrightarrow> blend_alpha featherSize distFromCore = 1)
   \<and> (0 < distFromCore \<and> featherSize \<le> distFromCore \<longrightarrow> blend_alpha featherSize distFromCore = 0)
   \<and> (0 < distFromCore \<and> distFromCore < featherSize \<longrightarrow>
        blend_alpha featherSize distFromCore =
          1 - (distFromCore / featherSize)\<^sup>2 * (3 - 2 * (distFromCore / featherSize)))
   \<and> (0 \<le> d1 \<and> d1 \<le> d2 \<longrightarrow> blend_alpha featherSize d2 \<le> blend_alpha featherSize d1)"
proof (intro conjI impI)
  assume "distFromCore \<le> 0"
  then show "blend_alpha featherSize distFromCore = 1" by (simp add: blend_alpha_def)
next
  assume "0 < distFromCore \<and> featherSize \<le> distFromCore"
  then show "blend_alpha featherSize distFromCore = 0" by (simp add: blend_alpha_def)
next
  assume "0 < distFromCore \<and> distFromCore < featherSize"
  then show "blend_alpha featherSize distFromCore =
          1 - (distFromCore / featherSize)\<^sup>2 * (3 - 2 * (distFromCore / featherSize))"
    using blend_alpha_zone(1) [of distFromCore featherSize] by (simp add: power2_eq_square)
next
  assume "0 \<le> d1 \<and> d1 \<le> d2"
  then show "blend_alpha featherSize d2 \<le> blend_alpha featherSize d1"
    using blend_alpha_antimono by blast
qed

theorem blend_alpha_smoothstep_witness:
  "blend_alpha 20 0 = 1 \<and> blend_alpha 20 25 = 0 \<and> blend_alpha 20 10 = 1 / 2
   \<and> blend_alpha 20 15 \<le> blend_alpha 20 5"
proof -
  have "blend_alpha 20 0 = 1"
    using blend_alpha_smoothstep [of 0 20 0 0] by simp
  moreover have "blend_alpha 20 25 = 0"
    using blend_alpha_smoothstep [of 25 20 0 0] by simp
  moreover have "blend_alpha 20 10 = 1 / 2"
    using blend_alpha_smoothstep [of 10 20 0 0] by (simp add: power2_eq_square)
  moreover have "blend_alpha 20 15 \<le> blend_alpha 20 5"
    using blend_alpha_smoothstep [of 0 20 5 15] by simp
  ultimately show ?thesis by simp
qed

section \<open>Properties of the regions\<close>

lemma region_bounds:
  "0 \<le> region_x (calculateWatermarkRegion w h ratio)"
  "0 \<le> region_y (calculateWatermarkRegion w h ratio)"
  "0 \<le> region_width (calculateWatermarkRegion w h ratio)"
  "0 \<le> region_height (calculateWatermarkRegion w h ratio)"
  "region_x (calculateWatermarkRegion w h ratio) + region_width (calculateWatermarkRegion w h ratio) = int w"
  "region_y (calculateWatermarkRegion w h ratio) + region_height (calculateWatermarkRegion w h ratio) = int h"
  by (simp_all add: calculateWatermarkRegion_def Let_def)

lemma expanded_x_bounds:
  assumes "0 \<le> region_x r" and "0 \<le> region_width r" and "region_x r + region_width r = int W"
  shows "0 \<le> expandedX r f" and "expandedX r f \<le> region_x r"
    and "expandedX r f + expandedWidth W r f = int W"
    and "0 \<le> expandedWidth W r f"
  using assms by (auto simp: expandedX_def expandedWidth_def)

lemma expanded_y_bounds:
  assumes "0 \<le> region_y r" and "0 \<le> region_height r" and "region_y r + region_height r = int H"
  shows "0 \<le> expandedY r f" and "expandedY r f \<le> region_y r"
    and "expandedY r f + expandedHeight H r f = int H"
    and "0 \<le> expandedHeight H r f"
  using assms by (auto simp: expandedY_def expandedHeight_def)

lemma expanded_region_nonneg:
  "0 \<le> expandedX (calculateWatermarkRegion W H ratio) f"
  "0 \<le> expandedY (calculateWatermarkRegion W H ratio) f"
  "0 \<le> expandedWidth W (calculateWatermarkRegion W H ratio) f"
  "0 \<le> expandedHeight H (calculateWatermarkRegion W H ratio) f"
  by (rule expanded_x_bounds(1) [OF region_bounds(1,3,5)],
      rule expanded_y_bounds(1) [OF region_bounds(2,4,6)],
      rule expanded_x_bounds(4) [OF region_bounds(1,3,5)],
      rule expanded_y_bounds(4) [OF region_bounds(2,4,6)])

section \<open>Properties of the canvas operations\<close>

lemma length_rgba_bytes [simp]: "length (rgba_bytes p) = 4"
  by (cases p) (simp add: rgba_bytes_def)




lemma getImageData_returns:
  "0 < sw \<Longrightarrow> 0 < sh \<Longrightarrow> \<exists>img. getImageData canvas sx sy sw sh = Inr img"
  by (simp add: getImageData_def)

text \<open>
  Below full opacity a colour that is stored and read back may change, and a transparent
  pixel loses its colour.
\<close>

lemma example_premultiplied:
  "unpremultiply (premultiply (100, 50, 25, 128)) = (100, 50, 26, 128)"
  "unpremultiply (premultiply (1, 2, 3, 0)) = (0, 0, 0, 0)"
  by (simp_all add: premultiply_def premultiply_channel_def unpremultiply_def
        unpremultiply_channel_def)




section \<open>Properties of the blend\<close>








lemma createFeatheredBlend_returns:
  "0 < w \<Longrightarrow> 0 < h \<Longrightarrow> \<exists>res. createFeatheredBlend original processed w h f cx cy = Inr res"
  by (simp add: createFeatheredBlend_def new_ImageData_def)







section \<open>Properties of the composition\<close>









text \<open>
  The source rectangle is computed in doubles. For an original 125 pixels wide and high
  and a feather of 30, the scale \<open>82 / 20\<close> is the double just below 4.1 and the scaled
  feather just below 123, so its floor is 122 and the rectangle starts at 308 and is 204
  wide and high.
\<close>

lemma example_source_rectangle:
  "procExpandedRegion (calculateWatermarkRegion 125 125 (Some EXTENDED_RATIO)) 30 =
     (Fin 308, Fin 308, Fin 204, Fin 204)"
proof -
  have r: "calculateWatermarkRegion 125 125 (Some EXTENDED_RATIO) =
     \<lparr>region_x = 105, region_y = 105, region_width = 20, region_height = 20\<rparr>"
    by (simp add: calculateWatermarkRegion_def EXTENDED_RATIO_def round_def)
  have p: "calculateWatermarkRegion INPUT_SIZE INPUT_SIZE (Some EXTENDED_RATIO) =
     \<lparr>region_x = 430, region_y = 430, region_width = 82, region_height = 82\<rparr>"
    by (simp add: calculateWatermarkRegion_def EXTENDED_RATIO_def INPUT_SIZE_def round_def)
  have scale: "js_div (Fin 82) (Fin 20) = Fin (2308094809027379 / 562949953421312)"
    by (simp add: js_div_def to_double_def round_binary_def Let_def binade_def bit_length.simps
          pow2_def round_half_even_def)
  have feather: "js_mul (Fin 30) (Fin (2308094809027379 / 562949953421312)) =
      Fin (8655355533852671 / 70368744177664)"
    by (simp add: js_mul_def to_double_def round_binary_def Let_def binade_def bit_length.simps
          pow2_def round_half_even_def)
  have fl: "Math_floor (Fin (8655355533852671 / 70368744177664)) = Fin 122"
    by simp
  have x: "js_sub (Fin 430) (Fin 122) = Fin 308"
    using to_double_int [of 308] by (simp add: js_sub_def num_sub_def)
  have w1: "js_sub (Fin 512) (Fin 308) = Fin 204"
    using to_double_int [of 204] by (simp add: js_sub_def num_sub_def)
  have w2: "js_add (Fin 82) (Fin 122) = Fin 204"
    using to_double_int [of 204] by (simp add: js_add_def)
  show ?thesis
    unfolding procExpandedRegion_def Let_def p r
    by (simp add: INPUT_SIZE_def scale feather fl x w1 w2)
qed



section \<open>Properties of addFiles\<close>

lemma call_onItemUpdate_fields [simp]:
  "items (call_onItemUpdate i st d s) = items s"
  "queue (call_onItemUpdate i st d s) = queue s"
  "pending (call_onItemUpdate i st d s) = pending s"
  "isProcessing (call_onItemUpdate i st d s) = isProcessing s"
  "isCancelled (call_onItemUpdate i st d s) = isCancelled s"
  "idsMade (call_onItemUpdate i st d s) = idsMade s"
  "onItemUpdate (call_onItemUpdate i st d s) = onItemUpdate s"
  "onProgressUpdate (call_onItemUpdate i st d s) = onProgressUpdate s"
  "onComplete (call_onItemUpdate i st d s) = onComplete s"
  "currentIndex (call_onItemUpdate i st d s) = currentIndex s"
  by (simp_all add: call_onItemUpdate_def)

lemma add_file_step:
  "fst (add_file validate genId f (ids, s)) = ids @ [genId (idsMade s)]"
  "items (snd (add_file validate genId f (ids, s))) =
     items s @ [\<lparr>item_id = genId (idsMade s), item_file = f,
          fileName = file_name f, fileSize = file_size f,
          status = (if valid (validate f) then QUEUED else ERROR),
          result = None,
          error = (if valid (validate f) then None else validation_error (validate f)),
          thumbnail = None\<rparr>]"
  "queue (snd (add_file validate genId f (ids, s))) = queue s @ [length (items s)]"
  "idsMade (snd (add_file validate genId f (ids, s))) = idsMade s + 1"
  "pending (snd (add_file validate genId f (ids, s))) = pending s"
  "isProcessing (snd (add_file validate genId f (ids, s))) = isProcessing s"
  "isCancelled (snd (add_file validate genId f (ids, s))) = isCancelled s"
  by (simp_all add: add_file_def Let_def)

text \<open>The state of the store, the queue and the returned ids after the files are added.\<close>

lemma addFiles_fold:
  "fst (fold (add_file validate genId) files (acc, s)) =
      acc @ map (\<lambda>k. genId (idsMade s + k)) [0..<length files]
   \<and> items (snd (fold (add_file validate genId) files (acc, s))) =
      items s @ map (\<lambda>k.
         \<lparr>item_id = genId (idsMade s + k), item_file = files ! k,
          fileName = file_name (files ! k), fileSize = file_size (files ! k),
          status = (if valid (validate (files ! k)) then QUEUED else ERROR),
          result = None,
          error = (if valid (validate (files ! k)) then None
                   else validation_error (validate (files ! k))),
          thumbnail = None\<rparr>) [0..<length files]
   \<and> queue (snd (fold (add_file validate genId) files (acc, s))) =
      queue s @ map (\<lambda>k. length (items s) + k) [0..<length files]
   \<and> idsMade (snd (fold (add_file validate genId) files (acc, s))) = idsMade s + length files
   \<and> pending (snd (fold (add_file validate genId) files (acc, s))) = pending s
   \<and> isProcessing (snd (fold (add_file validate genId) files (acc, s))) = isProcessing s
   \<and> isCancelled (snd (fold (add_file validate genId) files (acc, s))) = isCancelled s"
proof (induction files rule: rev_induct)
  case Nil
  then show ?case by simp
next
  case (snoc f files)
  obtain ids s1 where st: "fold (add_file validate genId) files (acc, s) = (ids, s1)"
    by (cases "fold (add_file validate genId) files (acc, s)")
  have nth: "map (\<lambda>k. g ((files @ [f]) ! k)) [0..<length files] = map (\<lambda>k. g (files ! k)) [0..<length files]"
    for g :: "File \<Rightarrow> 'b"
    by (simp add: nth_append)
  have item_map: "map (\<lambda>k.
         \<lparr>item_id = genId (idsMade s + k), item_file = (files @ [f]) ! k,
          fileName = file_name ((files @ [f]) ! k), fileSize = file_size ((files @ [f]) ! k),
          status = (if valid (validate ((files @ [f]) ! k)) then QUEUED else ERROR),
          result = None,
          error = (if valid (validate ((files @ [f]) ! k)) then None
                   else validation_error (validate ((files @ [f]) ! k))),
          thumbnail = None\<rparr>) [0..<length files] =
       map (\<lambda>k.
         \<lparr>item_id = genId (idsMade s + k), item_file = files ! k,
          fileName = file_name (files ! k), fileSize = file_size (files ! k),
          status = (if valid (validate (files ! k)) then QUEUED else ERROR),
          result = None,
          error = (if valid (validate (files ! k)) then None
                   else validation_error (validate (files ! k))),
          thumbnail = None\<rparr>) [0..<length files]"
    by (simp add: nth_append)
  have "fold (add_file validate genId) (files @ [f]) (acc, s) = add_file validate genId f (ids, s1)"
    by (simp add: st)
  with snoc st show ?case
    by (simp add: add_file_step item_map)
qed


text \<open>
  C9. \<open>addFiles\<close> admits every file: it appends one item per file to the queue, in
  submission order, with status \<open>QUEUED\<close> when the validator accepts the file and
  otherwise with status \<open>ERROR\<close> and the validator's error message; it returns one id per
  file, in the same order, each the id of the item made for that file; it leaves the items
  already there as they are.
\<close>

theorem addFiles_admits_all:
  assumes "addFiles validate genId files s = (addedIds, s')"
  shows "length addedIds = length files
     \<and> length (queue s') = length (queue s) + length files
     \<and> take (length (queue s)) (queue s') = queue s
     \<and> length (items s') = length (items s) + length files
     \<and> (\<forall>a<length (items s). items s' ! a = items s ! a)
     \<and> (\<forall>k<length files.
           queue s' ! (length (queue s) + k) = length (items s) + k
           \<and> item_file (queue_item s' (length (queue s) + k)) = files ! k
           \<and> item_id (queue_item s' (length (queue s) + k)) = addedIds ! k
           \<and> status (queue_item s' (length (queue s) + k)) =
               (if valid (validate (files ! k)) then QUEUED else ERROR)
           \<and> error (queue_item s' (length (queue s) + k)) =
               (if valid (validate (files ! k)) then None
                else validation_error (validate (files ! k))))"
proof -
  note F = addFiles_fold [of validate genId files "[]" s, folded addFiles_def, unfolded assms, simplified]
  from F have ids: "addedIds = map (\<lambda>k. genId (idsMade s + k)) [0..<length files]" by simp
  from F have q: "queue s' = queue s @ map (\<lambda>k. length (items s) + k) [0..<length files]" by simp
  from F have it: "items s' =
      items s @ map (\<lambda>k.
         \<lparr>item_id = genId (idsMade s + k), item_file = files ! k,
          fileName = file_name (files ! k), fileSize = file_size (files ! k),
          status = (if valid (validate (files ! k)) then QUEUED else ERROR),
          result = None,
          error = (if valid (validate (files ! k)) then None
                   else validation_error (validate (files ! k))),
          thumbnail = None\<rparr>) [0..<length files]"
    by simp
  have old: "\<forall>a<length (items s). items s' ! a = items s ! a"
    by (simp add: it nth_append)
  have new: "queue s' ! (length (queue s) + k) = length (items s) + k
           \<and> item_file (queue_item s' (length (queue s) + k)) = files ! k
           \<and> item_id (queue_item s' (length (queue s) + k)) = addedIds ! k
           \<and> status (queue_item s' (length (queue s) + k)) =
               (if valid (validate (files ! k)) then QUEUED else ERROR)
           \<and> error (queue_item s' (length (queue s) + k)) =
               (if valid (validate (files ! k)) then None
                else validation_error (validate (files ! k)))" if "k < length files" for k
  proof -
    have qk: "queue s' ! (length (queue s) + k) = length (items s) + k"
      using that by (simp add: q nth_append)
    have ik: "items s' ! (length (items s) + k) =
         \<lparr>item_id = genId (idsMade s + k), item_file = files ! k,
          fileName = file_name (files ! k), fileSize = file_size (files ! k),
          status = (if valid (validate (files ! k)) then QUEUED else ERROR),
          result = None,
          error = (if valid (validate (files ! k)) then None
                   else validation_error (validate (files ! k))),
          thumbnail = None\<rparr>"
      using that by (simp add: it nth_append)
    show ?thesis using that by (simp add: queue_item_def qk ik ids)
  qed
  have len: "length addedIds = length files" "length (queue s') = length (queue s) + length files"
    "take (length (queue s)) (queue s') = queue s"
    "length (items s') = length (items s) + length files"
    by (simp_all add: ids q it)
  from new have new': "\<forall>k<length files.
           queue s' ! (length (queue s) + k) = length (items s) + k
           \<and> item_file (queue_item s' (length (queue s) + k)) = files ! k
           \<and> item_id (queue_item s' (length (queue s) + k)) = addedIds ! k
           \<and> status (queue_item s' (length (queue s) + k)) =
               (if valid (validate (files ! k)) then QUEUED else ERROR)
           \<and> error (queue_item s' (length (queue s) + k)) =
               (if valid (validate (files ! k)) then None
                else validation_error (validate (files ! k)))"
    by blast
  show ?thesis
    by (intro conjI) (rule len old new')+
qed

theorem addFiles_admits_all_witness:
  "length (fst (addFiles example_validate example_genId [small_file, large_file]
                  (new_BatchProcessor True True True))) = 2
   \<and> status (queue_item (snd (addFiles example_validate example_genId [small_file, large_file]
                               (new_BatchProcessor True True True))) 0) = QUEUED
   \<and> status (queue_item (snd (addFiles example_validate example_genId [small_file, large_file]
                               (new_BatchProcessor True True True))) 1) = ERROR
   \<and> error (queue_item (snd (addFiles example_validate example_genId [small_file, large_file]
                               (new_BatchProcessor True True True))) 1)
        = Some ''File size exceeds limit''"
proof -
  obtain ids s' where
    st: "addFiles example_validate example_genId [small_file, large_file]
           (new_BatchProcessor True True True) = (ids, s')"
    by (cases "addFiles example_validate example_genId [small_file, large_file]
           (new_BatchProcessor True True True)")
  note T = addFiles_admits_all [OF st]
  from T have "length ids = 2" by simp
  moreover from T have "status (queue_item s' 0) = QUEUED"
    by (auto simp: new_BatchProcessor_def example_validate_def small_file_def
          dest!: spec [where x = 0])
  moreover from T have "status (queue_item s' 1) = ERROR
      \<and> error (queue_item s' 1) = Some ''File size exceeds limit''"
    by (auto simp: new_BatchProcessor_def example_validate_def large_file_def
          dest!: spec [where x = 1])
  ultimately show ?thesis by (simp add: st)
qed

section \<open>How the steps of the processor change it\<close>

lemma update_item_fields [simp]:
  "items (update_item a g s) = (items s)[a := g (items s ! a)]"
  "queue (update_item a g s) = queue s"
  "pending (update_item a g s) = pending s"
  "isProcessing (update_item a g s) = isProcessing s"
  "isCancelled (update_item a g s) = isCancelled s"
  "onItemUpdate (update_item a g s) = onItemUpdate s"
  "onProgressUpdate (update_item a g s) = onProgressUpdate s"
  "onComplete (update_item a g s) = onComplete s"
  "trace (update_item a g s) = trace s"
  by (simp_all add: update_item_def)

lemma call_onProgressUpdate_fields [simp]:
  "items (call_onProgressUpdate s) = items s"
  "queue (call_onProgressUpdate s) = queue s"
  "pending (call_onProgressUpdate s) = pending s"
  "isProcessing (call_onProgressUpdate s) = isProcessing s"
  "isCancelled (call_onProgressUpdate s) = isCancelled s"
  "onItemUpdate (call_onProgressUpdate s) = onItemUpdate s"
  "onProgressUpdate (call_onProgressUpdate s) = onProgressUpdate s"
  "onComplete (call_onProgressUpdate s) = onComplete s"
  by (simp_all add: call_onProgressUpdate_def split: prod.splits)

lemma finish_fields [simp]:
  "items (finish s) = items s"
  "queue (finish s) = queue s"
  "pending (finish s) = pending s"
  "isProcessing (finish s) = False"
  "isCancelled (finish s) = isCancelled s"
  "onItemUpdate (finish s) = onItemUpdate s"
  "onProgressUpdate (finish s) = onProgressUpdate s"
  "onComplete (finish s) = onComplete s"
  by (simp_all add: finish_def Let_def)

lemma begin_item_fields [simp]:
  "items (begin_item i s) = (items s)[queue s ! i := (items s ! (queue s ! i))\<lparr>status := PROCESSING\<rparr>]"
  "queue (begin_item i s) = queue s"
  "pending (begin_item i s) = pending s @ [(i, queue s ! i)]"
  "isProcessing (begin_item i s) = isProcessing s"
  "isCancelled (begin_item i s) = isCancelled s"
  "onItemUpdate (begin_item i s) = onItemUpdate s"
  "onProgressUpdate (begin_item i s) = onProgressUpdate s"
  "onComplete (begin_item i s) = onComplete s"
  by (simp_all add: begin_item_def Let_def)

lemma cancel_item_fields [simp]:
  "items (cancel_item j s) =
     (if status (queue_item s j) = QUEUED
      then (items s)[queue s ! j := (items s ! (queue s ! j))\<lparr>status := CANCELLED\<rparr>]
      else items s)"
  "queue (cancel_item j s) = queue s"
  "pending (cancel_item j s) = pending s"
  "isProcessing (cancel_item j s) = isProcessing s"
  "isCancelled (cancel_item j s) = isCancelled s"
  "onItemUpdate (cancel_item j s) = onItemUpdate s"
  "onProgressUpdate (cancel_item j s) = onProgressUpdate s"
  "onComplete (cancel_item j s) = onComplete s"
  by (simp_all add: cancel_item_def)

lemma loop_effect_finish: "loop_effect s (finish s)"
  by (simp add: loop_effect_def)

lemma finish_loop_effect: "loop_effect s s' \<Longrightarrow> loop_effect s (finish s')"
  by (simp add: loop_effect_def)

lemma loop_effect_begin_item:
  assumes "j < length (queue s)" and "queue s ! j < length (items s)"
    and "status (queue_item s j) = QUEUED"
  shows "loop_effect s (begin_item j s)"
  unfolding loop_effect_def
proof (intro conjI allI impI)
  fix a assume "a < length (items s)"
  then show "items (begin_item j s) ! a = items s ! a
            \<or> (status (items s ! a) = QUEUED
                \<and> (items (begin_item j s) ! a = (items s ! a)\<lparr>status := PROCESSING\<rparr>
                    \<or> (isCancelled s \<and> items (begin_item j s) ! a = (items s ! a)\<lparr>status := CANCELLED\<rparr>)))"
    using assms by (cases "a = queue s ! j") (simp_all add: queue_item_def)
next
  show "pending (begin_item j s) = pending s
          \<or> (\<exists>ja < length (queue s).
                pending (begin_item j s) = pending s @ [(ja, queue s ! ja)]
                \<and> status (items s ! (queue s ! ja)) = QUEUED
                \<and> status (items (begin_item j s) ! (queue s ! ja)) = PROCESSING)"
    using assms by (auto simp: queue_item_def intro!: exI [of _ j])
qed simp_all

lemma cancel_items_effect:
  assumes "isCancelled s" and "\<forall>j \<in> set js. j < length (queue s)"
    and "\<forall>a \<in> set (queue s). a < length (items s)"
  shows "length (items (fold cancel_item js s)) = length (items s)
     \<and> queue (fold cancel_item js s) = queue s
     \<and> isCancelled (fold cancel_item js s) = isCancelled s
     \<and> pending (fold cancel_item js s) = pending s
     \<and> (\<forall>a < length (items s).
            items (fold cancel_item js s) ! a = items s ! a
            \<or> (status (items s ! a) = QUEUED
                \<and> items (fold cancel_item js s) ! a = (items s ! a)\<lparr>status := CANCELLED\<rparr>))"
  using assms
proof (induction js arbitrary: s)
  case Nil
  then show ?case by simp
next
  case (Cons j js)
  let ?s1 = "cancel_item j s"
  have one: "\<forall>a < length (items s).
            items ?s1 ! a = items s ! a
            \<or> (status (items s ! a) = QUEUED \<and> items ?s1 ! a = (items s ! a)\<lparr>status := CANCELLED\<rparr>)"
    using Cons.prems by (auto simp: queue_item_def nth_list_update)
  have pre: "isCancelled ?s1" "\<forall>j \<in> set js. j < length (queue ?s1)"
    "\<forall>a \<in> set (queue ?s1). a < length (items ?s1)"
    using Cons.prems by simp_all
  note IH = Cons.IH [OF pre]
  have len1: "length (items ?s1) = length (items s)" by simp
  have "\<forall>a < length (items s).
            items (fold cancel_item js ?s1) ! a = items s ! a
            \<or> (status (items s ! a) = QUEUED
                \<and> items (fold cancel_item js ?s1) ! a = (items s ! a)\<lparr>status := CANCELLED\<rparr>)"
  proof (intro allI impI)
    fix a assume a: "a < length (items s)"
    from IH a len1 have two: "items (fold cancel_item js ?s1) ! a = items ?s1 ! a
            \<or> (status (items ?s1 ! a) = QUEUED
                \<and> items (fold cancel_item js ?s1) ! a = (items ?s1 ! a)\<lparr>status := CANCELLED\<rparr>)"
      by simp
    from one a have "items ?s1 ! a = items s ! a
            \<or> (status (items s ! a) = QUEUED \<and> items ?s1 ! a = (items s ! a)\<lparr>status := CANCELLED\<rparr>)"
      by blast
    then show "items (fold cancel_item js ?s1) ! a = items s ! a
            \<or> (status (items s ! a) = QUEUED
                \<and> items (fold cancel_item js ?s1) ! a = (items s ! a)\<lparr>status := CANCELLED\<rparr>)"
    proof
      assume "items ?s1 ! a = items s ! a"
      with two show ?thesis by auto
    next
      assume c: "status (items s ! a) = QUEUED \<and> items ?s1 ! a = (items s ! a)\<lparr>status := CANCELLED\<rparr>"
      then have "status (items ?s1 ! a) = CANCELLED" by simp
      with two c show ?thesis by auto
    qed
  qed
  with IH show ?case by simp
qed

lemma loop_effect_cancel_remaining:
  assumes "isCancelled s" and "\<forall>a \<in> set (queue s). a < length (items s)"
  shows "loop_effect s (cancel_remaining i s)"
proof -
  have "\<forall>j \<in> set [i..<length (queue s)]. j < length (queue s)" by simp
  from cancel_items_effect [OF assms(1) this assms(2)] assms(1)
  show ?thesis unfolding loop_effect_def cancel_remaining_def by auto
qed

text \<open>The loop from index \<open>i\<close>, by the first item at or after \<open>i\<close> that is still queued.\<close>

lemma run_loop_find:
  "run_loop i s =
     (if i < length (queue s) \<and> isCancelled s then finish (cancel_remaining i s)
      else case find (\<lambda>j. status (queue_item s j) = QUEUED) [i..<length (queue s)] of
             None \<Rightarrow> finish s
           | Some j \<Rightarrow> begin_item j s)"
proof (induction i s rule: run_loop.induct)
  case (1 i s)
  show ?case
  proof (cases "i < length (queue s)")
    case False
    then show ?thesis by (subst run_loop.simps) simp
  next
    case True
    then have upt: "[i..<length (queue s)] = i # [i + 1..<length (queue s)]"
      by (simp add: upt_conv_Cons)
    show ?thesis
    proof (cases "isCancelled s")
      case True
      with \<open>i < length (queue s)\<close> show ?thesis by (subst run_loop.simps) simp
    next
      case False
      note nc = this
      show ?thesis
      proof (cases "status (queue_item s i) = QUEUED")
        case True
        with nc \<open>i < length (queue s)\<close> show ?thesis
          by (subst run_loop.simps) (simp add: upt)
      next
        case False
        with nc \<open>i < length (queue s)\<close> "1.IH" show ?thesis
          by (subst run_loop.simps) (simp add: upt)
      qed
    qed
  qed
qed

lemma find_upt_Some:
  assumes "find P [i..<n] = Some j"
  shows "i \<le> j \<and> j < n \<and> P j \<and> (\<forall>k. i \<le> k \<and> k < j \<longrightarrow> \<not> P k)"
proof -
  from assms obtain m where m: "m < length [i..<n]" "P ([i..<n] ! m)" "j = [i..<n] ! m"
    "\<forall>k<m. \<not> P ([i..<n] ! k)"
    by (auto simp: find_Some_iff)
  then have j: "j = i + m" "m < n - i" by simp_all
  have "\<not> P k" if "i \<le> k" "k < j" for k
  proof -
    from that j have "k - i < m" by simp
    with m(4) have "\<not> P ([i..<n] ! (k - i))" by blast
    moreover have "[i..<n] ! (k - i) = k" using that j by simp
    ultimately show ?thesis by simp
  qed
  with m j show ?thesis by auto
qed

lemma find_upt_None: "find P [i..<n] = None \<longleftrightarrow> (\<forall>k. i \<le> k \<and> k < n \<longrightarrow> \<not> P k)"
  by (auto simp: find_None_iff)

lemma loop_effect_run_loop:
  assumes "\<forall>a \<in> set (queue s). a < length (items s)"
  shows "loop_effect s (run_loop i s)"
proof (cases "i < length (queue s) \<and> isCancelled s")
  case True
  then show ?thesis
    by (simp add: run_loop_find finish_loop_effect loop_effect_cancel_remaining [OF _ assms])
next
  case False
  show ?thesis
  proof (cases "find (\<lambda>j. status (queue_item s j) = QUEUED) [i..<length (queue s)]")
    case None
    with False show ?thesis by (auto simp: run_loop_find loop_effect_finish)
  next
    case (Some j)
    from find_upt_Some [OF Some] have j: "j < length (queue s)" "status (queue_item s j) = QUEUED"
      by simp_all
    with assms have "queue s ! j < length (items s)" by simp
    from loop_effect_begin_item [OF j(1) this j(2)] False Some show ?thesis
      by (auto simp: run_loop_find)
  qed
qed


section \<open>The invariant\<close>

lemma wf_new_BatchProcessor: "wf_processor (new_BatchProcessor u p c)"
  by (simp add: wf_processor_def new_BatchProcessor_def)

lemma wf_loop_effect:
  assumes wf: "wf_processor s" and le: "loop_effect s s'"
  shows "wf_processor s'"
proof -
  from le have len: "length (items s') = length (items s)" and q: "queue s' = queue s"
    and it: "\<forall>a < length (items s).
            items s' ! a = items s ! a
            \<or> (status (items s ! a) = QUEUED
                \<and> (items s' ! a = (items s ! a)\<lparr>status := PROCESSING\<rparr>
                    \<or> (isCancelled s \<and> items s' ! a = (items s ! a)\<lparr>status := CANCELLED\<rparr>)))"
    and pd: "pending s' = pending s
          \<or> (\<exists>j < length (queue s).
                pending s' = pending s @ [(j, queue s ! j)]
                \<and> status (items s ! (queue s ! j)) = QUEUED
                \<and> status (items s' ! (queue s ! j)) = PROCESSING)"
    by (simp_all add: loop_effect_def)
  from wf have qv: "\<forall>a \<in> set (queue s). a < length (items s)" and qd: "distinct (queue s)"
    and pv: "\<forall>p \<in> set (pending s). snd p < length (items s) \<and> status (items s ! snd p) = PROCESSING"
    and pdist: "distinct (map snd (pending s))"
    and cr: "\<forall>a < length (items s). status (items s ! a) = COMPLETE \<longrightarrow> result (items s ! a) \<noteq> None"
    by (simp_all add: wf_processor_def)
  have keep: "items s' ! a = items s ! a" if "a < length (items s)" "status (items s ! a) \<noteq> QUEUED" for a
    using it that by blast
  have old: "snd p < length (items s') \<and> status (items s' ! snd p) = PROCESSING"
    if "p \<in> set (pending s)" for p
    using pv that keep [of "snd p"] len by auto
  have c': "\<forall>a < length (items s'). status (items s' ! a) = COMPLETE \<longrightarrow> result (items s' ! a) \<noteq> None"
  proof (intro allI impI)
    fix a assume a: "a < length (items s')" "status (items s' ! a) = COMPLETE"
    with it len have "items s' ! a = items s ! a" by (auto simp: len)
    with a cr len show "result (items s' ! a) \<noteq> None" by simp
  qed
  from pd show ?thesis
  proof
    assume "pending s' = pending s"
    with old c' qv qd pdist len q show ?thesis by (simp add: wf_processor_def)
  next
    assume "\<exists>j < length (queue s).
                pending s' = pending s @ [(j, queue s ! j)]
                \<and> status (items s ! (queue s ! j)) = QUEUED
                \<and> status (items s' ! (queue s ! j)) = PROCESSING"
    then obtain j where j: "j < length (queue s)" "pending s' = pending s @ [(j, queue s ! j)]"
      "status (items s ! (queue s ! j)) = QUEUED" "status (items s' ! (queue s ! j)) = PROCESSING"
      by blast
    have av: "queue s ! j < length (items s)" using qv j(1) by simp
    have fresh: "queue s ! j \<notin> snd ` set (pending s)"
    proof
      assume "queue s ! j \<in> snd ` set (pending s)"
      then obtain p where "p \<in> set (pending s)" "snd p = queue s ! j" by auto
      with pv j(3) show False by auto
    qed
    from old j av fresh c' qv qd pdist len q show ?thesis
      by (auto simp: wf_processor_def)
  qed
qed

lemma wf_run_loop: "wf_processor s \<Longrightarrow> wf_processor (run_loop i s)"
  by (rule wf_loop_effect [OF _ loop_effect_run_loop]) (simp_all add: wf_processor_def)

lemma wf_start: "wf_processor s \<Longrightarrow> wf_processor (start s)"
proof -
  assume wf: "wf_processor s"
  then have "wf_processor (s\<lparr>isProcessing := True, isCancelled := False\<rparr>)"
    by (simp add: wf_processor_def)
  then show ?thesis using wf by (simp add: start_def wf_run_loop)
qed

lemma wf_cancel: "wf_processor s \<Longrightarrow> wf_processor (cancel s)"
  by (simp add: wf_processor_def cancel_def)

lemma wf_reset: "wf_processor s \<Longrightarrow> wf_processor (reset s)"
  by (simp add: wf_processor_def reset_def)

lemma wf_addFiles:
  assumes "wf_processor s"
  shows "wf_processor (snd (addFiles validate genId files s))"
proof -
  let ?s' = "snd (addFiles validate genId files s)"
  note F = addFiles_fold [of validate genId files "[]" s, folded addFiles_def]
  from F have it: "items ?s' = items s @ map (\<lambda>k.
         \<lparr>item_id = genId (idsMade s + k), item_file = files ! k,
          fileName = file_name (files ! k), fileSize = file_size (files ! k),
          status = (if valid (validate (files ! k)) then QUEUED else ERROR),
          result = None,
          error = (if valid (validate (files ! k)) then None
                   else validation_error (validate (files ! k))),
          thumbnail = None\<rparr>) [0..<length files]"
    and q: "queue ?s' = queue s @ map (\<lambda>k. length (items s) + k) [0..<length files]"
    and p: "pending ?s' = pending s"
    by simp_all
  from assms have qv: "\<forall>a \<in> set (queue s). a < length (items s)" and qd: "distinct (queue s)"
    and pv: "\<forall>p \<in> set (pending s). snd p < length (items s) \<and> status (items s ! snd p) = PROCESSING"
    and pdist: "distinct (map snd (pending s))"
    and cr: "\<forall>a < length (items s). status (items s ! a) = COMPLETE \<longrightarrow> result (items s ! a) \<noteq> None"
    by (simp_all add: wf_processor_def)
  have "distinct (map (\<lambda>k. length (items s) + k) [0..<length files])"
    by (simp add: distinct_map inj_on_def)
  with qv qd have d: "distinct (queue ?s')" by (auto simp: q)
  have v: "\<forall>a \<in> set (queue ?s'). a < length (items ?s')"
    using qv by (auto simp: q it)
  have pv': "\<forall>p \<in> set (pending ?s'). snd p < length (items ?s') \<and> status (items ?s' ! snd p) = PROCESSING"
    using pv by (auto simp: p it nth_append)
  have c: "\<forall>a < length (items ?s'). status (items ?s' ! a) = COMPLETE \<longrightarrow> result (items ?s' ! a) \<noteq> None"
    using cr by (auto simp: it nth_append)
  from d v pv' c pdist show ?thesis by (simp add: wf_processor_def p)
qed


section \<open>Calls of the processing callback\<close>

lemma process_calls_append [simp]:
  "process_calls (xs @ ys) = process_calls xs @ process_calls ys"
  by (induction xs rule: process_calls.induct) simp_all

lemma process_calls_call_onItemUpdate [simp]:
  "process_calls (trace (call_onItemUpdate i st d s)) = process_calls (trace s)"
  by (simp add: call_onItemUpdate_def)

lemma process_calls_call_onProgressUpdate [simp]:
  "process_calls (trace (call_onProgressUpdate s)) = process_calls (trace s)"
  by (simp add: call_onProgressUpdate_def split: prod.splits)

lemma process_calls_finish [simp]:
  "process_calls (trace (finish s)) = process_calls (trace s)"
  by (simp add: finish_def Let_def)

lemma process_calls_cancel_item [simp]:
  "process_calls (trace (cancel_item j s)) = process_calls (trace s)"
  by (simp add: cancel_item_def)

lemma process_calls_cancel_remaining [simp]:
  "process_calls (trace (cancel_remaining i s)) = process_calls (trace s)"
proof -
  have "process_calls (trace (fold cancel_item js s)) = process_calls (trace s)" for js
    by (induction js arbitrary: s) simp_all
  then show ?thesis by (simp add: cancel_remaining_def)
qed

lemma process_calls_begin_item [simp]:
  "process_calls (trace (begin_item j s)) =
     process_calls (trace s) @ [item_file (items s ! (queue s ! j))]"
  by (cases "queue s ! j < length (items s)")
     (simp_all add: begin_item_def Let_def list_update_beyond)

lemma process_calls_add_file [simp]:
  "process_calls (trace (snd (add_file validate genId f acc))) = process_calls (trace (snd acc))"
  by (cases acc) (simp add: add_file_def Let_def)

lemma process_calls_addFiles [simp]:
  "process_calls (trace (snd (addFiles validate genId files s))) = process_calls (trace s)"
proof -
  have "process_calls (trace (snd (fold (add_file validate genId) files acc)))
          = process_calls (trace (snd acc))" for acc
    by (induction files arbitrary: acc) simp_all
  then show ?thesis by (simp add: addFiles_def)
qed

text \<open>
  Settling in two parts: the \<open>try\<close> statement and the progress report, which give the
  state \<open>settle_mid\<close>, and then the loop from the next index (unless the \<open>catch\<close> block
  itself threw).
\<close>

lemma settle_decompose:
  assumes k: "k < length (pending s)" and p: "pending s ! k = (i, a)"
  obtains mid where
    "items mid = (items s)[a := settled_item outcome (items s ! a)]"
    "queue mid = queue s"
    "pending mid = take k (pending s) @ drop (k + 1) (pending s)"
    "isCancelled mid = isCancelled s"
    "isProcessing mid = isProcessing s"
    "settle k outcome s = (if outcome = Rejected Nullish then mid else run_loop (i + 1) mid)"
    "process_calls (trace mid) = process_calls (trace s)"
proof (cases outcome)
  case (Resolved res)
  let ?s1 = "s\<lparr>pending := take k (pending s) @ drop (k + 1) (pending s)\<rparr>"
  let ?s2 = "update_item a (\<lambda>item. item\<lparr>result := Some res\<rparr>)
               (update_item a (\<lambda>item. item\<lparr>status := COMPLETE\<rparr>) ?s1)"
  let ?mid = "call_onProgressUpdate
                (call_onItemUpdate (item_id (items ?s2 ! a)) COMPLETE
                   (Completed (dataUrl res) (dataUrl res)) ?s2)"
  show ?thesis
  proof (rule that [of ?mid])
    show "items ?mid = (items s)[a := settled_item outcome (items s ! a)]"
      by (cases "a < length (items s)") (simp_all add: Resolved settled_item_def list_update_beyond)
    show "settle k outcome s = (if outcome = Rejected Nullish then ?mid else run_loop (i + 1) ?mid)"
      using k p by (simp add: settle_def Resolved Let_def)
  qed simp_all
next
  case (Rejected t)
  let ?s1 = "s\<lparr>pending := take k (pending s) @ drop (k + 1) (pending s)\<rparr>"
  show ?thesis
  proof (cases t)
    case Nullish
    let ?mid = "update_item a (\<lambda>item. item\<lparr>status := ERROR\<rparr>) ?s1"
    show ?thesis
    proof (rule that [of ?mid])
      show "items ?mid = (items s)[a := settled_item outcome (items s ! a)]"
        by (simp add: Rejected Nullish settled_item_def)
      show "settle k outcome s = (if outcome = Rejected Nullish then ?mid else run_loop (i + 1) ?mid)"
        using k p by (simp add: settle_def Rejected Nullish Let_def)
    qed simp_all
  next
    case (ThrownValue message)
    let ?s2 = "update_item a (\<lambda>item. item\<lparr>error := Some (error_text message)\<rparr>)
                 (update_item a (\<lambda>item. item\<lparr>status := ERROR\<rparr>) ?s1)"
    let ?mid = "call_onProgressUpdate
                  (call_onItemUpdate (item_id (items ?s2 ! a)) ERROR
                     (Failed (error (items ?s2 ! a))) ?s2)"
    show ?thesis
    proof (rule that [of ?mid])
      show "items ?mid = (items s)[a := settled_item outcome (items s ! a)]"
        by (cases "a < length (items s)")
           (simp_all add: Rejected ThrownValue settled_item_def list_update_beyond)
      show "settle k outcome s = (if outcome = Rejected Nullish then ?mid else run_loop (i + 1) ?mid)"
        using k p by (simp add: settle_def Rejected ThrownValue Let_def)
    qed simp_all
  qed
qed

lemma settled_item_status:
  "status (settled_item outcome item) = COMPLETE \<or> status (settled_item outcome item) = ERROR"
  "status (settled_item outcome item) = COMPLETE \<Longrightarrow> result (settled_item outcome item) \<noteq> None"
  by (auto simp: settled_item_def split: Outcome.splits Thrown.splits)

lemma wf_settle_mid:
  assumes wf: "wf_processor s" and k: "k < length (pending s)" and p: "pending s ! k = (i, a)"
    and it: "items mid = (items s)[a := settled_item outcome (items s ! a)]"
    and q: "queue mid = queue s"
    and pd: "pending mid = take k (pending s) @ drop (k + 1) (pending s)"
  shows "wf_processor mid"
proof -
  from wf have qv: "\<forall>a \<in> set (queue s). a < length (items s)" and qd: "distinct (queue s)"
    and pv: "\<forall>p \<in> set (pending s). snd p < length (items s) \<and> status (items s ! snd p) = PROCESSING"
    and pdist: "distinct (map snd (pending s))"
    and cr: "\<forall>a < length (items s). status (items s ! a) = COMPLETE \<longrightarrow> result (items s ! a) \<noteq> None"
    by (simp_all add: wf_processor_def)
  have split: "pending s = take k (pending s) @ (i, a) # drop (k + 1) (pending s)"
    using id_take_nth_drop [OF k] p by simp
  have sub: "set (pending mid) \<subseteq> set (pending s)"
    unfolding pd by (auto dest: in_set_takeD in_set_dropD)
  have "distinct (map snd (take k (pending s) @ (i, a) # drop (k + 1) (pending s)))"
    using pdist split by simp
  then have d: "distinct (map snd (pending mid))" and na: "a \<notin> snd ` set (pending mid)"
    unfolding pd by auto
  have pv': "\<forall>p \<in> set (pending mid). snd p < length (items mid) \<and> status (items mid ! snd p) = PROCESSING"
  proof
    fix p assume pm: "p \<in> set (pending mid)"
    with sub pv have "snd p < length (items s)" "status (items s ! snd p) = PROCESSING" by auto
    moreover from pm na have "snd p \<noteq> a" by auto
    ultimately show "snd p < length (items mid) \<and> status (items mid ! snd p) = PROCESSING"
      by (simp add: it)
  qed
  have c: "\<forall>b < length (items mid). status (items mid ! b) = COMPLETE \<longrightarrow> result (items mid ! b) \<noteq> None"
  proof (intro allI impI)
    fix b assume b: "b < length (items mid)" "status (items mid ! b) = COMPLETE"
    show "result (items mid ! b) \<noteq> None"
    proof (cases "b = a")
      case True
      with b show ?thesis
        using settled_item_status(2) [of outcome "items s ! a"] by (simp add: it)
    next
      case False
      with b cr show ?thesis by (simp add: it)
    qed
  qed
  from qv qd pv' d c show ?thesis by (simp add: wf_processor_def it q)
qed

lemma wf_settle:
  assumes "wf_processor s"
  shows "wf_processor (settle k outcome s)"
proof (cases "k < length (pending s)")
  case False
  with assms show ?thesis by (simp add: settle_def)
next
  case True
  obtain i a where p: "pending s ! k = (i, a)" by (cases "pending s ! k")
  obtain mid where mid:
    "items mid = (items s)[a := settled_item outcome (items s ! a)]"
    "queue mid = queue s"
    "pending mid = take k (pending s) @ drop (k + 1) (pending s)"
    "settle k outcome s = (if outcome = Rejected Nullish then mid else run_loop (i + 1) mid)"
    by (rule settle_decompose [OF True p, of outcome]) blast
  have "wf_processor mid" by (rule wf_settle_mid [OF assms True p mid(1-3)])
  then show ?thesis by (simp add: mid(4) wf_run_loop)
qed

lemma wf_step: "wf_processor s \<Longrightarrow> wf_processor (step validate genId e s)"
  by (cases e) (simp_all add: wf_addFiles wf_start wf_cancel wf_reset wf_settle)

lemma wf_run_events:
  "wf_processor s \<Longrightarrow> wf_processor (run_events validate genId events s)"
  unfolding run_events_def
  by (induction events arbitrary: s) (simp_all add: wf_step)

section \<open>Status transitions\<close>

text \<open>What one event does to an item that is already in the store.\<close>

lemma step_item:
  assumes wf: "wf_processor s" and a: "a < length (items s)"
  shows "a < length (items (step validate genId e s))"
    and "items (step validate genId e s) ! a = items s ! a
       \<or> (status (items s ! a) = QUEUED
           \<and> (items (step validate genId e s) ! a = (items s ! a)\<lparr>status := PROCESSING\<rparr>
               \<or> (isCancelled s
                   \<and> items (step validate genId e s) ! a = (items s ! a)\<lparr>status := CANCELLED\<rparr>)))
       \<or> (status (items s ! a) = PROCESSING
           \<and> (\<exists>k outcome. e = Settle k outcome \<and> k < length (pending s) \<and> snd (pending s ! k) = a
                 \<and> items (step validate genId e s) ! a = settled_item outcome (items s ! a)))"
proof -
  from wf have qv: "\<forall>a \<in> set (queue s). a < length (items s)"
    and pv: "\<forall>p \<in> set (pending s). snd p < length (items s) \<and> status (items s ! snd p) = PROCESSING"
    by (simp_all add: wf_processor_def)
  have both: "a < length (items (step validate genId e s))
    \<and> (items (step validate genId e s) ! a = items s ! a
       \<or> (status (items s ! a) = QUEUED
           \<and> (items (step validate genId e s) ! a = (items s ! a)\<lparr>status := PROCESSING\<rparr>
               \<or> (isCancelled s
                   \<and> items (step validate genId e s) ! a = (items s ! a)\<lparr>status := CANCELLED\<rparr>)))
       \<or> (status (items s ! a) = PROCESSING
           \<and> (\<exists>k outcome. e = Settle k outcome \<and> k < length (pending s) \<and> snd (pending s ! k) = a
                 \<and> items (step validate genId e s) ! a = settled_item outcome (items s ! a))))"
  proof (cases e)
    case (AddFiles files)
    note F = addFiles_fold [of validate genId files "[]" s, folded addFiles_def]
    from F a show ?thesis by (simp add: AddFiles nth_append)
  next
    case Start
    show ?thesis
    proof (cases "isProcessing s")
      case True
      with a show ?thesis by (simp add: Start start_def)
    next
      case False
      let ?s0 = "s\<lparr>isProcessing := True, isCancelled := False\<rparr>"
      have "loop_effect ?s0 (run_loop 0 ?s0)"
        by (rule loop_effect_run_loop) (simp add: qv)
      with a False show ?thesis
        by (auto simp: Start start_def loop_effect_def)
    qed
  next
    case Cancel
    with a show ?thesis by (simp add: cancel_def)
  next
    case Reset
    with a show ?thesis by (simp add: reset_def)
  next
    case (Settle k outcome)
    show ?thesis
    proof (cases "k < length (pending s)")
      case False
      with a show ?thesis by (simp add: Settle settle_def)
    next
      case True
      obtain i b where p: "pending s ! k = (i, b)" by (cases "pending s ! k")
      obtain mid where mid:
        "items mid = (items s)[b := settled_item outcome (items s ! b)]"
        "queue mid = queue s"
        "pending mid = take k (pending s) @ drop (k + 1) (pending s)"
        "isCancelled mid = isCancelled s"
        "settle k outcome s = (if outcome = Rejected Nullish then mid else run_loop (i + 1) mid)"
        by (rule settle_decompose [OF True p, of outcome]) blast
      have "pending s ! k \<in> set (pending s)" using True by simp
      with p pv have b: "b < length (items s)" "status (items s ! b) = PROCESSING"
        by (auto dest!: bspec [where x = "(i, b)"])
      have le: "loop_effect mid (run_loop (i + 1) mid)"
        by (rule loop_effect_run_loop) (simp add: mid qv)
      have len: "length (items (settle k outcome s)) = length (items s)"
        using le by (simp add: mid loop_effect_def)
      show ?thesis
      proof (cases "a = b")
        case True
        have "status (items mid ! a) \<noteq> QUEUED"
          using settled_item_status(1) [of outcome "items s ! b"] b True by (auto simp: mid)
        with le a have "items (run_loop (i + 1) mid) ! a = items mid ! a"
          by (auto simp: loop_effect_def mid)
        then have "items (settle k outcome s) ! a = settled_item outcome (items s ! a)"
          using b True by (simp add: mid)
        with b True \<open>k < length (pending s)\<close> p a len show ?thesis
          by (auto simp: Settle)
      next
        case False
        then have same: "items mid ! a = items s ! a" by (simp add: mid)
        from le a have "items (run_loop (i + 1) mid) ! a = items mid ! a
            \<or> (status (items mid ! a) = QUEUED
                \<and> (items (run_loop (i + 1) mid) ! a = (items mid ! a)\<lparr>status := PROCESSING\<rparr>
                    \<or> (isCancelled mid \<and> items (run_loop (i + 1) mid) ! a = (items mid ! a)\<lparr>status := CANCELLED\<rparr>)))"
          by (simp add: loop_effect_def mid)
        with same a len show ?thesis
          by (auto simp: Settle mid)
      qed
    qed
  qed
  from both show "a < length (items (step validate genId e s))" by blast
  from both show "items (step validate genId e s) ! a = items s ! a
       \<or> (status (items s ! a) = QUEUED
           \<and> (items (step validate genId e s) ! a = (items s ! a)\<lparr>status := PROCESSING\<rparr>
               \<or> (isCancelled s
                   \<and> items (step validate genId e s) ! a = (items s ! a)\<lparr>status := CANCELLED\<rparr>)))
       \<or> (status (items s ! a) = PROCESSING
           \<and> (\<exists>k outcome. e = Settle k outcome \<and> k < length (pending s) \<and> snd (pending s ! k) = a
                 \<and> items (step validate genId e s) ! a = settled_item outcome (items s ! a)))"
    by blast
qed

lemma step_status:
  assumes "wf_processor s" and "a < length (items s)"
  shows "status_step (isCancelled s) (status (items s ! a))
           (status (items (step validate genId e s) ! a))"
proof -
  from step_item(2) [OF assms, of validate genId e]
  consider "items (step validate genId e s) ! a = items s ! a"
    | "status (items s ! a) = QUEUED"
      "items (step validate genId e s) ! a = (items s ! a)\<lparr>status := PROCESSING\<rparr>"
    | "status (items s ! a) = QUEUED" "isCancelled s"
      "items (step validate genId e s) ! a = (items s ! a)\<lparr>status := CANCELLED\<rparr>"
    | outcome where "status (items s ! a) = PROCESSING"
      "items (step validate genId e s) ! a = settled_item outcome (items s ! a)"
    by blast
  then show ?thesis
  proof cases
    case 4
    with settled_item_status(1) [of outcome "items s ! a"] show ?thesis
      by (auto simp: status_step_def)
  qed (simp_all add: status_step_def)
qed

text \<open>An item in a terminal state is never changed again, in any field.\<close>

lemma step_terminal_item:
  assumes "wf_processor s" and "a < length (items s)" and "is_terminal (status (items s ! a))"
  shows "items (step validate genId e s) ! a = items s ! a"
  using step_item(2) [OF assms(1,2), of validate genId e] assms(3)
  by (auto simp: is_terminal_def)

lemma run_events_terminal_item:
  assumes "wf_processor s" and "a < length (items s)" and "is_terminal (status (items s ! a))"
  shows "a < length (items (run_events validate genId events s))
       \<and> items (run_events validate genId events s) ! a = items s ! a"
  using assms unfolding run_events_def
proof (induction events arbitrary: s)
  case Nil
  then show ?case by simp
next
  case (Cons e events)
  let ?s1 = "step validate genId e s"
  have 1: "wf_processor ?s1" by (rule wf_step [OF Cons.prems(1)])
  have 2: "a < length (items ?s1)" by (rule step_item(1) [OF Cons.prems(1,2)])
  have 3: "items ?s1 ! a = items s ! a" by (rule step_terminal_item [OF Cons.prems])
  with Cons.prems(3) have 4: "is_terminal (status (items ?s1 ! a))" by simp
  from Cons.IH [OF 1 2 4] 3 show ?case by simp
qed

lemma step_new_items:
  assumes "length (items s) \<le> b" and "b < length (items (step validate genId e s))"
    and "\<forall>a \<in> set (queue s). a < length (items s)"
  shows "status (items (step validate genId e s) ! b) = QUEUED
       \<or> status (items (step validate genId e s) ! b) = ERROR"
proof (cases e)
  case (AddFiles files)
  note F = addFiles_fold [of validate genId files "[]" s, folded addFiles_def]
  from F assms show ?thesis by (auto simp: AddFiles nth_append)
next
  case Start
  have "loop_effect (s\<lparr>isProcessing := True, isCancelled := False\<rparr>)
          (run_loop 0 (s\<lparr>isProcessing := True, isCancelled := False\<rparr>))"
    by (rule loop_effect_run_loop) (simp add: assms(3))
  then have "length (items (start s)) = length (items s)"
    by (simp add: start_def loop_effect_def)
  with assms show ?thesis by (simp add: Start)
next
  case Cancel
  with assms show ?thesis by (simp add: cancel_def)
next
  case Reset
  with assms show ?thesis by (simp add: reset_def)
next
  case (Settle k outcome)
  have "length (items (settle k outcome s)) = length (items s)"
  proof (cases "k < length (pending s)")
    case False
    then show ?thesis by (simp add: settle_def)
  next
    case True
    obtain i c where p: "pending s ! k = (i, c)" by (cases "pending s ! k")
    obtain mid where mid:
      "items mid = (items s)[c := settled_item outcome (items s ! c)]"
      "queue mid = queue s"
      "settle k outcome s = (if outcome = Rejected Nullish then mid else run_loop (i + 1) mid)"
      by (rule settle_decompose [OF True p, of outcome]) blast
    have "loop_effect mid (run_loop (i + 1) mid)"
      by (rule loop_effect_run_loop) (simp add: mid assms(3))
    then show ?thesis by (simp add: mid loop_effect_def)
  qed
  with assms show ?thesis by (simp add: Settle)
qed

lemma example_run_state:
  "map status (items example_run) = [PROCESSING, ERROR, QUEUED]"
  "queue example_run = [0, 1, 2]"
  "pending example_run = [(0, 0)]"
  "isCancelled example_run"
  "isProcessing example_run"
  by (simp_all add: example_run_def run_events_def addFiles_def add_file_def Let_def
        new_BatchProcessor_def example_validate_def small_file_def large_file_def other_file_def
        call_onItemUpdate_def start_def run_loop.simps queue_item_def begin_item_def
        update_item_def call_onProgressUpdate_def getProgress_def is_terminal_def cancel_def)


lemma example_run_settled:
  "map status (items (step example_validate example_genId (Settle 0 (Resolved example_result))
                        example_run)) = [COMPLETE, ERROR, CANCELLED]"
  by (simp add: example_run_def run_events_def addFiles_def add_file_def Let_def
        new_BatchProcessor_def example_validate_def small_file_def large_file_def other_file_def
        call_onItemUpdate_def start_def run_loop.simps queue_item_def begin_item_def
        update_item_def call_onProgressUpdate_def getProgress_def is_terminal_def cancel_def
        settle_def cancel_remaining_def cancel_item_def finish_def getResults_def)

text \<open>
  C3. In every state the processor can reach, one more event (a call of \<open>addFiles\<close>,
  \<open>start\<close>, \<open>cancel\<close> or \<open>reset\<close>, or the settling of an awaited promise) leaves the status
  of every item as it is or moves it along \<open>QUEUED \<rightarrow> PROCESSING\<close>,
  \<open>PROCESSING \<rightarrow> COMPLETE\<close>, \<open>PROCESSING \<rightarrow> ERROR\<close> or \<open>QUEUED \<rightarrow> CANCELLED\<close>, the last only
  when cancellation has been requested; items are created \<open>QUEUED\<close> or \<open>ERROR\<close>; and an
  item that is \<open>COMPLETE\<close>, \<open>ERROR\<close> or \<open>CANCELLED\<close> keeps its status through every
  sequence of events.
\<close>

theorem status_transitions:
  assumes "s = run_events validate genId events (new_BatchProcessor u p c)"
    and "a < length (items s)"
  shows "a < length (items (step validate genId e s))
     \<and> (status (items (step validate genId e s) ! a) = status (items s ! a)
        \<or> (status (items s ! a) = QUEUED \<and> status (items (step validate genId e s) ! a) = PROCESSING)
        \<or> (status (items s ! a) = PROCESSING
            \<and> (status (items (step validate genId e s) ! a) = COMPLETE
                \<or> status (items (step validate genId e s) ! a) = ERROR))
        \<or> (status (items s ! a) = QUEUED \<and> status (items (step validate genId e s) ! a) = CANCELLED
            \<and> isCancelled s))
     \<and> (\<forall>b. length (items s) \<le> b \<and> b < length (items (step validate genId e s)) \<longrightarrow>
            status (items (step validate genId e s) ! b) = QUEUED
            \<or> status (items (step validate genId e s) ! b) = ERROR)
     \<and> (is_terminal (status (items s ! a)) \<longrightarrow>
          (\<forall>later. a < length (items (run_events validate genId later s))
                 \<and> status (items (run_events validate genId later s) ! a) = status (items s ! a)))"
proof -
  have wf: "wf_processor s"
    unfolding assms(1) by (rule wf_run_events [OF wf_new_BatchProcessor])
  then have qv: "\<forall>a \<in> set (queue s). a < length (items s)"
    by (simp add: wf_processor_def)
  have 1: "a < length (items (step validate genId e s))"
    by (rule step_item(1) [OF wf assms(2)])
  have 2: "status (items (step validate genId e s) ! a) = status (items s ! a)
        \<or> (status (items s ! a) = QUEUED \<and> status (items (step validate genId e s) ! a) = PROCESSING)
        \<or> (status (items s ! a) = PROCESSING
            \<and> (status (items (step validate genId e s) ! a) = COMPLETE
                \<or> status (items (step validate genId e s) ! a) = ERROR))
        \<or> (status (items s ! a) = QUEUED \<and> status (items (step validate genId e s) ! a) = CANCELLED
            \<and> isCancelled s)"
    using step_status [OF wf assms(2), of validate genId e] by (auto simp: status_step_def)
  have 3: "\<forall>b. length (items s) \<le> b \<and> b < length (items (step validate genId e s)) \<longrightarrow>
            status (items (step validate genId e s) ! b) = QUEUED
            \<or> status (items (step validate genId e s) ! b) = ERROR"
    using step_new_items [OF _ _ qv] by blast
  have 4: "is_terminal (status (items s ! a)) \<longrightarrow>
          (\<forall>later. a < length (items (run_events validate genId later s))
                 \<and> status (items (run_events validate genId later s) ! a) = status (items s ! a))"
    using run_events_terminal_item [OF wf assms(2)] by simp
  show ?thesis by (intro conjI) (rule 1 2 3 4)+
qed

theorem status_transitions_witness:
  "status (items example_run ! 0) = PROCESSING
   \<and> status (items (step example_validate example_genId (Settle 0 (Resolved example_result))
                       example_run) ! 0) = COMPLETE
   \<and> status (items example_run ! 1) = ERROR
   \<and> status (items (step example_validate example_genId (Settle 0 (Resolved example_result))
                       example_run) ! 1) = ERROR
   \<and> status (items example_run ! 2) = QUEUED \<and> isCancelled example_run
   \<and> status (items (step example_validate example_genId (Settle 0 (Resolved example_result))
                       example_run) ! 2) = CANCELLED
   \<and> 2 < length (items (step example_validate example_genId (Settle 0 (Resolved example_result))
                          example_run))"
proof -
  have len: "length (items example_run) = 3"
    using arg_cong [OF example_run_state(1), of length] by simp
  then have a: "2 < length (items example_run)" by simp
  from status_transitions [OF example_run_def a, of "Settle 0 (Resolved example_result)"]
  have "2 < length (items (step example_validate example_genId (Settle 0 (Resolved example_result))
                          example_run))"
    by blast
  moreover have "status (items example_run ! 0) = PROCESSING" "status (items example_run ! 1) = ERROR"
    "status (items example_run ! 2) = QUEUED"
    using arg_cong [OF example_run_state(1), of "\<lambda>xs. xs ! 0"]
      arg_cong [OF example_run_state(1), of "\<lambda>xs. xs ! 1"]
      arg_cong [OF example_run_state(1), of "\<lambda>xs. xs ! 2"] len
    by simp_all
  moreover have "status (items (step example_validate example_genId (Settle 0 (Resolved example_result))
                       example_run) ! 0) = COMPLETE"
    "status (items (step example_validate example_genId (Settle 0 (Resolved example_result))
                       example_run) ! 1) = ERROR"
    "status (items (step example_validate example_genId (Settle 0 (Resolved example_result))
                       example_run) ! 2) = CANCELLED"
    using arg_cong [OF example_run_settled, of "\<lambda>xs. xs ! 0"]
      arg_cong [OF example_run_settled, of "\<lambda>xs. xs ! 1"]
      arg_cong [OF example_run_settled, of "\<lambda>xs. xs ! 2"]
      arg_cong [OF example_run_settled, of length]
    by simp_all
  ultimately show ?thesis using example_run_state(4) by simp
qed

section \<open>Results\<close>

lemma example_finished_state:
  "map status (items example_finished) = [COMPLETE, ERROR, CANCELLED]"
  "queue example_finished = [0, 1, 2]"
  "getResults example_finished =
     [\<lparr>entry_id = ''batch-'', entry_fileName = ''a.png'', entry_dataUrl = ''data:clean'',
       entry_originalDataUrl = ''data:original''\<rparr>]"
  by (simp_all add: example_finished_def run_events_def addFiles_def add_file_def Let_def
        new_BatchProcessor_def example_validate_def small_file_def large_file_def other_file_def
        call_onItemUpdate_def start_def run_loop.simps queue_item_def begin_item_def
        update_item_def call_onProgressUpdate_def getProgress_def is_terminal_def cancel_def
        settle_def cancel_remaining_def cancel_item_def finish_def getResults_def
        result_entry_def example_genId_def example_result_def)

text \<open>
  C7. In every state the processor can reach, \<open>getResults\<close> returns one entry for each
  \<open>COMPLETE\<close> item of the queue, in queue order (the order of submission), made of the
  item's id and file name and the two data URLs of its result. When every one of the \<open>N\<close>
  items of the queue is in a terminal state and \<open>k\<close> of them are \<open>ERROR\<close> or
  \<open>CANCELLED\<close>, it returns \<open>N - k\<close> entries. \<open>getResults\<close> only reads the processor, so
  the items it omits stay in the queue with their status.
\<close>

theorem getResults_complete_only:
  assumes "s = run_events validate genId events (new_BatchProcessor u p c)"
    and "\<forall>a \<in> set (queue s). is_terminal (status (items s ! a))"
    and "k = length (filter (\<lambda>a. status (items s ! a) = ERROR \<or> status (items s ! a) = CANCELLED)
                       (queue s))"
  shows "getResults s =
           map result_entry (map (\<lambda>a. items s ! a)
             (filter (\<lambda>a. status (items s ! a) = COMPLETE) (queue s)))
     \<and> (\<forall>a \<in> set (queue s). status (items s ! a) = COMPLETE \<longrightarrow>
           (\<exists>res. result (items s ! a) = Some res
             \<and> result_entry (items s ! a) =
                 \<lparr>entry_id = item_id (items s ! a), entry_fileName = fileName (items s ! a),
                  entry_dataUrl = dataUrl res, entry_originalDataUrl = originalDataUrl res\<rparr>))
     \<and> length (getResults s) = length (queue s) - k"
proof -
  have wf: "wf_processor s"
    unfolding assms(1) by (rule wf_run_events [OF wf_new_BatchProcessor])
  then have has: "\<exists>res. result (items s ! a) = Some res"
    if "a \<in> set (queue s)" "status (items s ! a) = COMPLETE" for a
    using that by (auto simp: wf_processor_def)
  have f: "filter (\<lambda>item. status item = COMPLETE \<and> result item \<noteq> None) (map (\<lambda>a. items s ! a) (queue s))
         = map (\<lambda>a. items s ! a) (filter (\<lambda>a. status (items s ! a) = COMPLETE) (queue s))"
    unfolding filter_map comp_def
    by (rule arg_cong [where f = "map (\<lambda>a. items s ! a)"], rule filter_cong)
       (use has in auto)
  have 1: "getResults s =
           map result_entry (map (\<lambda>a. items s ! a)
             (filter (\<lambda>a. status (items s ! a) = COMPLETE) (queue s)))"
    by (simp only: getResults_def f)
  have 2: "\<forall>a \<in> set (queue s). status (items s ! a) = COMPLETE \<longrightarrow>
           (\<exists>res. result (items s ! a) = Some res
             \<and> result_entry (items s ! a) =
                 \<lparr>entry_id = item_id (items s ! a), entry_fileName = fileName (items s ! a),
                  entry_dataUrl = dataUrl res, entry_originalDataUrl = originalDataUrl res\<rparr>)"
  proof (intro ballI impI)
    fix a assume "a \<in> set (queue s)" "status (items s ! a) = COMPLETE"
    from has [OF this] obtain res where "result (items s ! a) = Some res" by blast
    then show "\<exists>res. result (items s ! a) = Some res
             \<and> result_entry (items s ! a) =
                 \<lparr>entry_id = item_id (items s ! a), entry_fileName = fileName (items s ! a),
                  entry_dataUrl = dataUrl res, entry_originalDataUrl = originalDataUrl res\<rparr>"
      by (simp add: result_entry_def)
  qed
  have "filter (\<lambda>a. status (items s ! a) = ERROR \<or> status (items s ! a) = CANCELLED) (queue s)
        = filter (\<lambda>a. \<not> status (items s ! a) = COMPLETE) (queue s)"
  proof (rule filter_cong)
    fix a assume "a \<in> set (queue s)"
    with assms(2) have "is_terminal (status (items s ! a))" by blast
    then show "(status (items s ! a) = ERROR \<or> status (items s ! a) = CANCELLED)
             = (\<not> status (items s ! a) = COMPLETE)"
      by (auto simp: is_terminal_def)
  qed simp
  then have "k = length (filter (\<lambda>a. \<not> status (items s ! a) = COMPLETE) (queue s))"
    by (simp add: assms(3))
  with sum_length_filter_compl [of "\<lambda>a. status (items s ! a) = COMPLETE" "queue s"]
  have 3: "length (getResults s) = length (queue s) - k"
    by (simp add: 1)
  show ?thesis by (intro conjI) (rule 1 2 3)+
qed

theorem getResults_complete_only_witness:
  "map (\<lambda>a. is_terminal (status (items example_finished ! a))) (queue example_finished)
     = [True, True, True]
   \<and> length (filter (\<lambda>a. status (items example_finished ! a) = ERROR
                         \<or> status (items example_finished ! a) = CANCELLED)
               (queue example_finished)) = 2
   \<and> length (queue example_finished) = 3
   \<and> length (getResults example_finished) = 1
   \<and> getResults example_finished =
        [\<lparr>entry_id = ''batch-'', entry_fileName = ''a.png'', entry_dataUrl = ''data:clean'',
          entry_originalDataUrl = ''data:original''\<rparr>]"
proof -
  have st: "status (items example_finished ! 0) = COMPLETE"
    "status (items example_finished ! 1) = ERROR"
    "status (items example_finished ! 2) = CANCELLED"
    using arg_cong [OF example_finished_state(1), of "\<lambda>xs. xs ! 0"]
      arg_cong [OF example_finished_state(1), of "\<lambda>xs. xs ! 1"]
      arg_cong [OF example_finished_state(1), of "\<lambda>xs. xs ! 2"]
      arg_cong [OF example_finished_state(1), of length]
    by simp_all
  have st1: "status (items example_finished ! Suc 0) = ERROR" using st(2) by simp
  have allterm: "\<forall>a \<in> set (queue example_finished). is_terminal (status (items example_finished ! a))"
    by (simp add: example_finished_state(2) st st1 is_terminal_def)
  have k: "(2::nat) = length (filter (\<lambda>a. status (items example_finished ! a) = ERROR
                         \<or> status (items example_finished ! a) = CANCELLED)
               (queue example_finished))"
    by (simp add: example_finished_state(2) st st1)
  from getResults_complete_only [OF example_finished_def allterm k]
  have "length (getResults example_finished) = length (queue example_finished) - 2" by blast
  then have "length (getResults example_finished) = 1"
    by (simp add: example_finished_state(2))
  moreover have "length (queue example_finished) = 3"
    by (simp add: example_finished_state(2))
  moreover have "map (\<lambda>a. is_terminal (status (items example_finished ! a))) (queue example_finished)
     = [True, True, True]"
    by (simp add: example_finished_state(2) st st1 is_terminal_def)
  ultimately show ?thesis
    by (intro conjI) (rule k [symmetric] example_finished_state(3) | assumption)+
qed

section \<open>A run without cancellation\<close>

lemma find_filter_eq:
  "find P xs = (case filter P xs of [] \<Rightarrow> None | x # rest \<Rightarrow> Some x)"
  by (induction xs) simp_all

lemma queued_from_Cons:
  assumes "queued_from i s = j # rest"
  shows "i \<le> j" and "j < length (queue s)" and "status (queue_item s j) = QUEUED"
    and "rest = queued_from (j + 1) s"
    and "\<forall>l. i \<le> l \<and> l < j \<longrightarrow> status (queue_item s l) \<noteq> QUEUED"
proof -
  let ?P = "\<lambda>j. status (queue_item s j) = QUEUED"
  from assms have f: "find ?P [i..<length (queue s)] = Some j"
    by (simp add: find_filter_eq queued_from_def)
  note F = find_upt_Some [OF f]
  from F show "i \<le> j" "j < length (queue s)" "status (queue_item s j) = QUEUED"
    "\<forall>l. i \<le> l \<and> l < j \<longrightarrow> status (queue_item s l) \<noteq> QUEUED"
    by blast+
  have split: "[i..<length (queue s)] = [i..<j] @ j # [j + 1..<length (queue s)]"
    using F by (metis Suc_eq_plus1 le_add_diff_inverse less_imp_le_nat upt_add_eq_append upt_conv_Cons)
  have "filter ?P [i..<j] = []" using F by (auto simp: filter_empty_conv)
  with assms F show "rest = queued_from (j + 1) s"
    by (simp add: queued_from_def split)
qed

lemma run_loop_queued_Cons:
  assumes "queued_from i s = j # rest" and "\<not> isCancelled s"
  shows "run_loop i s = begin_item j s"
  using assms by (simp add: run_loop_find find_filter_eq queued_from_def)

lemma run_loop_queued_Nil:
  assumes "queued_from i s = []" and "\<not> isCancelled s"
  shows "run_loop i s = finish s"
  using assms by (simp add: run_loop_find find_filter_eq queued_from_def)


text \<open>
  From index \<open>i\<close>, with no invocation suspended and no cancellation requested, the loop
  and the settling of its promises process every queued item from \<open>i\<close> on, in order,
  and touch nothing else.
\<close>

lemma run_completes:
  assumes "wf_processor s" and "pending s = []" and "\<not> isCancelled s"
    and "\<forall>outcome \<in> set outcomes. outcome \<noteq> Rejected Nullish"
    and "length outcomes = length (queued_from i s)"
  shows "pending (settle_all outcomes (run_loop i s)) = []
     \<and> \<not> isProcessing (settle_all outcomes (run_loop i s))
     \<and> queue (settle_all outcomes (run_loop i s)) = queue s
     \<and> length (items (settle_all outcomes (run_loop i s))) = length (items s)
     \<and> (\<forall>j \<in> set (queued_from i s).
           status (queue_item (settle_all outcomes (run_loop i s)) j) = COMPLETE
           \<or> status (queue_item (settle_all outcomes (run_loop i s)) j) = ERROR)
     \<and> (\<forall>a < length (items s). a \<notin> (\<lambda>j. queue s ! j) ` set (queued_from i s) \<longrightarrow>
           items (settle_all outcomes (run_loop i s)) ! a = items s ! a)
     \<and> process_calls (trace (settle_all outcomes (run_loop i s))) =
         process_calls (trace s) @ map (\<lambda>j. item_file (queue_item s j)) (queued_from i s)"
  using assms
proof (induction outcomes arbitrary: i s)
  case Nil
  then have "queued_from i s = []" by simp
  from run_loop_queued_Nil [OF this Nil.prems(3)] \<open>queued_from i s = []\<close> Nil.prems(2)
  show ?case by simp
next
  case (Cons outcome outcomes)
  from Cons.prems(5) obtain j rest where q: "queued_from i s = j # rest"
    by (cases "queued_from i s") simp_all
  note Q = queued_from_Cons [OF q]
  define a where "a = queue s ! j"
  define s1 where "s1 = begin_item j s"
  have run: "run_loop i s = s1"
    unfolding s1_def by (rule run_loop_queued_Cons [OF q Cons.prems(3)])
  from Cons.prems(1) have qv: "\<forall>a \<in> set (queue s). a < length (items s)" and qd: "distinct (queue s)"
    by (simp_all add: wf_processor_def)
  have av: "a < length (items s)" using qv Q(2) by (simp add: a_def)
  have wf1: "wf_processor s1"
    unfolding run [symmetric] by (rule wf_run_loop [OF Cons.prems(1)])
  have p1: "pending s1 = [(j, a)]" by (simp add: s1_def a_def Cons.prems(2))
  then have k: "0 < length (pending s1)" and pk: "pending s1 ! 0 = (j, a)" by simp_all
  have it1: "items s1 = (items s)[a := (items s ! a)\<lparr>status := PROCESSING\<rparr>]"
    by (simp add: s1_def a_def)
  have nn: "outcome \<noteq> Rejected Nullish" using Cons.prems(4) by simp
  obtain mid where mid:
    "items mid = (items s1)[a := settled_item outcome (items s1 ! a)]"
    "queue mid = queue s1"
    "pending mid = take 0 (pending s1) @ drop (0 + 1) (pending s1)"
    "isCancelled mid = isCancelled s1"
    "settle 0 outcome s1 = (if outcome = Rejected Nullish then mid else run_loop (j + 1) mid)"
    "process_calls (trace mid) = process_calls (trace s1)"
    by (rule settle_decompose [OF k pk, of outcome]) blast
  have wfm: "wf_processor mid" by (rule wf_settle_mid [OF wf1 k pk mid(1-3)])
  have qm: "queue mid = queue s" by (simp add: mid s1_def)
  have pm: "pending mid = []" by (simp add: mid p1)
  have cm: "\<not> isCancelled mid" using Cons.prems(3) by (simp add: mid s1_def)
  have itm: "items mid = (items s)[a := settled_item outcome ((items s ! a)\<lparr>status := PROCESSING\<rparr>)]"
    using av by (simp add: mid it1)
  have other: "queue s ! l \<noteq> a" if "l < length (queue s)" "l \<noteq> j" for l
    using that qd Q(2) by (auto simp: a_def nth_eq_iff_index_eq)
  have qi: "queue_item mid l = queue_item s l" if "l < length (queue s)" "l \<noteq> j" for l
    using other [OF that] by (simp add: queue_item_def qm itm)
  have qf: "queued_from (j + 1) mid = rest"
    unfolding Q(4) queued_from_def qm
    by (rule filter_cong) (simp_all add: qi)
  have len': "length outcomes = length (queued_from (j + 1) mid)"
    using Cons.prems(5) unfolding q qf by simp
  have nn': "\<forall>outcome \<in> set outcomes. outcome \<noteq> Rejected Nullish"
    using Cons.prems(4) by simp
  note IH = Cons.IH [OF wfm pm cm nn' len', unfolded qf qm]
  define final where "final = settle_all outcomes (run_loop (j + 1) mid)"
  have fin: "settle_all (outcome # outcomes) (run_loop i s) = final"
    by (simp add: run mid(5) nn final_def)
  note IH' = IH [folded final_def]
  have lenm: "length (items mid) = length (items s)" by (simp add: itm)
  have a_not_rest: "a \<notin> (\<lambda>j. queue s ! j) ` set rest"
  proof
    assume "a \<in> (\<lambda>j. queue s ! j) ` set rest"
    then obtain l where l: "l \<in> set rest" "queue s ! l = a" by auto
    from l(1) have "j + 1 \<le> l" "l < length (queue s)"
      unfolding Q(4) queued_from_def by simp_all
    with other [of l] l(2) show False by simp
  qed
  have a_final: "items final ! a = settled_item outcome ((items s ! a)\<lparr>status := PROCESSING\<rparr>)"
    using IH' a_not_rest av by (simp add: lenm itm)
  have st_j: "status (queue_item final j) = COMPLETE \<or> status (queue_item final j) = ERROR"
    using settled_item_status(1) [of outcome "(items s ! a)\<lparr>status := PROCESSING\<rparr>"] IH'
    by (simp add: queue_item_def a_def [symmetric] a_final)
  have st_rest: "\<forall>l \<in> set rest. status (queue_item final l) = COMPLETE
                                \<or> status (queue_item final l) = ERROR"
    using IH' by blast
  have untouched: "\<forall>b < length (items s). b \<notin> (\<lambda>j. queue s ! j) ` set (j # rest) \<longrightarrow>
           items final ! b = items s ! b"
  proof (intro allI impI)
    fix b assume b: "b < length (items s)" "b \<notin> (\<lambda>j. queue s ! j) ` set (j # rest)"
    then have "b \<noteq> a" "b \<notin> (\<lambda>j. queue s ! j) ` set rest" by (auto simp: a_def)
    with IH' b(1) have "items final ! b = items mid ! b" by (simp add: lenm)
    with \<open>b \<noteq> a\<close> show "items final ! b = items s ! b" by (simp add: itm)
  qed
  have files: "map (\<lambda>l. item_file (queue_item mid l)) rest = map (\<lambda>l. item_file (queue_item s l)) rest"
  proof (rule map_cong [OF refl])
    fix l assume "l \<in> set rest"
    then have "j + 1 \<le> l" "l < length (queue s)"
      unfolding Q(4) queued_from_def by simp_all
    then show "item_file (queue_item mid l) = item_file (queue_item s l)"
      using qi [of l] by simp
  qed
  have calls: "process_calls (trace final) =
         process_calls (trace s) @ map (\<lambda>j. item_file (queue_item s j)) (j # rest)"
  proof -
    from IH' have "process_calls (trace final) =
        process_calls (trace mid) @ map (\<lambda>l. item_file (queue_item mid l)) rest"
      by blast
    then show ?thesis
      unfolding files mid(6) s1_def by (simp add: queue_item_def)
  qed
  from IH' have basics: "pending final = []" "\<not> isProcessing final" "queue final = queue s"
    "length (items final) = length (items s)"
    by (simp_all add: lenm)
  show ?case
    unfolding fin q
    by (intro conjI) (use basics st_j st_rest untouched calls in simp_all)
qed

section \<open>Cancellation before a run\<close>

lemma example_added_state:
  "map status (items example_added) = [QUEUED, QUEUED]"
  "map item_file (items example_added) = [small_file, other_file]"
  "queue example_added = [0, 1]"
  "\<not> isProcessing example_added"
  "pending example_added = []"
  "process_calls (trace example_added) = []"
  by (simp_all add: example_added_def run_events_def addFiles_def add_file_def Let_def
        new_BatchProcessor_def example_validate_def small_file_def other_file_def
        call_onItemUpdate_def)

text \<open>
  C10. Take a processor in a state it can reach, with no run in progress and no invocation
  of \<open>start\<close> suspended. Calling \<open>cancel\<close> and then \<open>start\<close> gives the same state as calling
  \<open>start\<close> alone: \<open>start\<close> clears the flag on entry, the flag is clear when it suspends, and
  it has marked no item \<open>CANCELLED\<close>. When the awaited promises then settle, one after the
  other, each with a result or a thrown value other than \<open>null\<close> and \<open>undefined\<close>, the
  processing callback is called with the file of every \<open>QUEUED\<close> item of the queue, in
  queue order, every one of them ends \<open>COMPLETE\<close> or \<open>ERROR\<close>, no item is \<open>CANCELLED\<close>
  that was not so before, and the run has ended.
\<close>

theorem cancel_before_start_ignored:
  assumes "s = run_events validate genId events (new_BatchProcessor u p c)"
    and "\<not> isProcessing s" and "pending s = []"
    and "\<forall>outcome \<in> set outcomes. outcome \<noteq> Rejected Nullish"
    and "length outcomes = length (queued_from 0 s)"
  shows "start (cancel s) = start s
     \<and> \<not> isCancelled (start (cancel s))
     \<and> (\<forall>a < length (items s). status (items (start (cancel s)) ! a) = CANCELLED
           \<longrightarrow> status (items s ! a) = CANCELLED)
     \<and> process_calls (trace (settle_all outcomes (start (cancel s)))) =
         process_calls (trace s) @ map (\<lambda>j. item_file (queue_item s j)) (queued_from 0 s)
     \<and> (\<forall>j \<in> set (queued_from 0 s).
           status (queue_item (settle_all outcomes (start (cancel s))) j) = COMPLETE
           \<or> status (queue_item (settle_all outcomes (start (cancel s))) j) = ERROR)
     \<and> (\<forall>a < length (items s).
           status (items (settle_all outcomes (start (cancel s))) ! a) = CANCELLED
           \<longrightarrow> status (items s ! a) = CANCELLED)
     \<and> \<not> isProcessing (settle_all outcomes (start (cancel s)))"
proof -
  define s0 where "s0 = s\<lparr>isProcessing := True, isCancelled := False\<rparr>"
  define final where "final = settle_all outcomes (run_loop 0 s0)"
  have "wf_processor s"
    unfolding assms(1) by (rule wf_run_events [OF wf_new_BatchProcessor])
  then have wf0: "wf_processor s0" by (simp add: wf_processor_def s0_def)
  have f0: "items s0 = items s" "queue s0 = queue s" "pending s0 = []" "\<not> isCancelled s0"
    "trace s0 = trace s"
    by (simp_all add: s0_def assms(3))
  have q0: "queued_from 0 s0 = queued_from 0 s"
    by (simp add: queued_from_def queue_item_def f0)
  have qi0: "queue_item s0 j = queue_item s j" for j
    by (simp add: queue_item_def f0)
  have st: "start (cancel s) = run_loop 0 s0" "start s = run_loop 0 s0"
    using assms(2) by (simp_all add: start_def cancel_def s0_def)
  have 1: "start (cancel s) = start s" by (simp only: st)
  from wf0 have "\<forall>a \<in> set (queue s0). a < length (items s0)" by (simp add: wf_processor_def)
  from loop_effect_run_loop [OF this, of 0]
  have le: "loop_effect s0 (run_loop 0 s0)" .
  have 2: "\<not> isCancelled (run_loop 0 s0)"
    using le f0(4) by (simp add: loop_effect_def)
  have 3: "\<forall>a < length (items s). status (items (run_loop 0 s0) ! a) = CANCELLED
           \<longrightarrow> status (items s ! a) = CANCELLED"
  proof (intro allI impI)
    fix a assume a: "a < length (items s)" "status (items (run_loop 0 s0) ! a) = CANCELLED"
    from le a(1) f0(4) have "items (run_loop 0 s0) ! a = items s ! a
        \<or> items (run_loop 0 s0) ! a = (items s ! a)\<lparr>status := PROCESSING\<rparr>"
      unfolding loop_effect_def f0(1) by blast
    with a(2) show "status (items s ! a) = CANCELLED" by auto
  qed
  have len: "length outcomes = length (queued_from 0 s0)" by (simp add: q0 assms(5))
  note R = run_completes [OF wf0 f0(3) f0(4) assms(4) len, folded final_def, unfolded q0 f0 qi0]
  from R have 4: "process_calls (trace final) =
         process_calls (trace s) @ map (\<lambda>j. item_file (queue_item s j)) (queued_from 0 s)"
    by blast
  from R have 5: "\<forall>j \<in> set (queued_from 0 s).
           status (queue_item final j) = COMPLETE \<or> status (queue_item final j) = ERROR"
    by blast
  from R have qf: "queue final = queue s" by blast
  from R have un: "\<forall>a < length (items s). a \<notin> (\<lambda>j. queue s ! j) ` set (queued_from 0 s) \<longrightarrow>
           items final ! a = items s ! a"
    by blast
  have 6: "\<forall>a < length (items s). status (items final ! a) = CANCELLED
           \<longrightarrow> status (items s ! a) = CANCELLED"
  proof (intro allI impI)
    fix a assume a: "a < length (items s)" "status (items final ! a) = CANCELLED"
    show "status (items s ! a) = CANCELLED"
    proof (cases "a \<in> (\<lambda>j. queue s ! j) ` set (queued_from 0 s)")
      case True
      then obtain j where j: "j \<in> set (queued_from 0 s)" "a = queue s ! j" by auto
      from 5 j(1) have "status (queue_item final j) = COMPLETE \<or> status (queue_item final j) = ERROR"
        by blast
      with a(2) show ?thesis by (simp add: queue_item_def qf j(2))
    next
      case False
      with un a show ?thesis by simp
    qed
  qed
  from R have 7: "\<not> isProcessing final" by blast
  show ?thesis
    unfolding st final_def [symmetric]
    by (intro conjI) (rule refl 2 3 4 5 6 7)+
qed

theorem cancel_before_start_ignored_witness:
  "queued_from 0 example_added = [0, 1]
   \<and> start (cancel example_added) = start example_added
   \<and> process_calls (trace (settle_all [Resolved example_result, Rejected (ThrownValue (Some ''boom''))]
                              (start (cancel example_added)))) = [small_file, other_file]
   \<and> \<not> isProcessing (settle_all [Resolved example_result, Rejected (ThrownValue (Some ''boom''))]
                              (start (cancel example_added)))"
proof -
  have st: "status (items example_added ! 0) = QUEUED" "status (items example_added ! Suc 0) = QUEUED"
    "item_file (items example_added ! 0) = small_file"
    "item_file (items example_added ! Suc 0) = other_file"
    using arg_cong [OF example_added_state(1), of "\<lambda>xs. xs ! 0"]
      arg_cong [OF example_added_state(1), of "\<lambda>xs. xs ! 1"]
      arg_cong [OF example_added_state(2), of "\<lambda>xs. xs ! 0"]
      arg_cong [OF example_added_state(2), of "\<lambda>xs. xs ! 1"]
      arg_cong [OF example_added_state(1), of length]
    by simp_all
  have q: "queued_from 0 example_added = [0, 1]"
    by (simp add: queued_from_def queue_item_def example_added_state(3) st upt_rec)
  have out: "\<forall>outcome \<in> set [Resolved example_result, Rejected (ThrownValue (Some ''boom''))].
               outcome \<noteq> Rejected Nullish"
    by simp
  have len: "length [Resolved example_result, Rejected (ThrownValue (Some ''boom''))] =
               length (queued_from 0 example_added)"
    by (simp add: q)
  from cancel_before_start_ignored [OF example_added_def example_added_state(4,5) out len]
  have "start (cancel example_added) = start example_added"
    and "process_calls (trace (settle_all [Resolved example_result, Rejected (ThrownValue (Some ''boom''))]
                              (start (cancel example_added)))) =
         process_calls (trace example_added) @
           map (\<lambda>j. item_file (queue_item example_added j)) (queued_from 0 example_added)"
    and "\<not> isProcessing (settle_all [Resolved example_result, Rejected (ThrownValue (Some ''boom''))]
                              (start (cancel example_added)))"
    by blast+
  then show ?thesis
    by (simp add: q example_added_state(3,6) queue_item_def st)
qed

section \<open>Failures\<close>

lemma example_started_state:
  "map status (items example_started) = [PROCESSING, QUEUED]"
  "map item_file (items example_started) = [small_file, other_file]"
  "map error (items example_started) = [None, None]"
  "queue example_started = [0, 1]"
  "pending example_started = [(0, 0)]"
  "\<not> isCancelled example_started"
  "process_calls (trace example_started) = [small_file]"
  by (simp_all add: example_started_def run_events_def addFiles_def add_file_def Let_def
        new_BatchProcessor_def example_validate_def small_file_def other_file_def
        call_onItemUpdate_def start_def run_loop.simps queue_item_def begin_item_def
        update_item_def call_onProgressUpdate_def getProgress_def is_terminal_def)

text \<open>
  The loop calls the processing callback at most once before it suspends or returns, and
  then for an item that was \<open>QUEUED\<close> and is now \<open>PROCESSING\<close>.
\<close>

lemma run_loop_calls:
  assumes "\<forall>a \<in> set (queue s). a < length (items s)"
  shows "process_calls (trace (run_loop i s)) = process_calls (trace s)
       \<or> (\<exists>j < length (queue s). status (queue_item s j) = QUEUED
             \<and> status (queue_item (run_loop i s) j) = PROCESSING
             \<and> process_calls (trace (run_loop i s)) =
                 process_calls (trace s) @ [item_file (queue_item s j)])"
proof (cases "i < length (queue s) \<and> isCancelled s")
  case True
  then show ?thesis by (simp add: run_loop_find)
next
  case False
  show ?thesis
  proof (cases "find (\<lambda>j. status (queue_item s j) = QUEUED) [i..<length (queue s)]")
    case None
    with False show ?thesis by (auto simp: run_loop_find)
  next
    case (Some j)
    from find_upt_Some [OF Some] have j: "j < length (queue s)" "status (queue_item s j) = QUEUED"
      by simp_all
    with assms have v: "queue s ! j < length (items s)" by simp
    have run: "run_loop i s = begin_item j s"
      using False Some by (auto simp: run_loop_find)
    have "status (queue_item (begin_item j s) j) = PROCESSING"
      using v by (simp add: queue_item_def)
    moreover have "process_calls (trace (begin_item j s)) =
                 process_calls (trace s) @ [item_file (queue_item s j)]"
      by (simp add: queue_item_def)
    ultimately show ?thesis using j unfolding run by blast
  qed
qed

text \<open>
  Settling the promise of an item that is \<open>PROCESSING\<close> changes no other item, and so
  leaves the \<open>QUEUED\<close> items what and where they are.
\<close>

lemma settled_queue_item:
  assumes "a < length (items s) \<Longrightarrow> status (items s ! a) = PROCESSING"
    and "items mid = (items s)[a := settled_item outcome (items s ! a)]"
    and "queue mid = queue s"
  shows "(status (queue_item mid j) = QUEUED) = (status (queue_item s j) = QUEUED)"
    and "status (queue_item s j) = QUEUED \<Longrightarrow> queue_item mid j = queue_item s j"
proof -
  have "queue_item mid j = queue_item s j
      \<or> (status (queue_item s j) = PROCESSING
          \<and> (status (queue_item mid j) = COMPLETE \<or> status (queue_item mid j) = ERROR))"
  proof (cases "queue s ! j = a \<and> a < length (items s)")
    case True
    with assms(1) settled_item_status(1) [of outcome "items s ! a"] show ?thesis
      by (simp add: queue_item_def assms(2,3))
  next
    case False
    then show ?thesis
      by (auto simp: queue_item_def assms(2,3) list_update_beyond)
  qed
  then show "(status (queue_item mid j) = QUEUED) = (status (queue_item s j) = QUEUED)"
    and "status (queue_item s j) = QUEUED \<Longrightarrow> queue_item mid j = queue_item s j"
    by auto
qed

lemma queued_from_settled:
  assumes "a < length (items s) \<Longrightarrow> status (items s ! a) = PROCESSING"
    and "items mid = (items s)[a := settled_item outcome (items s ! a)]"
    and "queue mid = queue s"
  shows "queued_from i mid = queued_from i s"
  unfolding queued_from_def assms(3)
  by (rule filter_cong [OF refl]) (rule settled_queue_item(1) [OF assms])

text \<open>
  One event makes at most one call of the processing callback, and then for an item that
  was \<open>QUEUED\<close> and is now \<open>PROCESSING\<close>.
\<close>

lemma step_calls:
  assumes wf: "wf_processor t"
  shows "process_calls (trace (step validate genId e t)) = process_calls (trace t)
       \<or> (\<exists>j < length (queue t). status (queue_item t j) = QUEUED
             \<and> status (queue_item (step validate genId e t) j) = PROCESSING
             \<and> process_calls (trace (step validate genId e t)) =
                 process_calls (trace t) @ [item_file (queue_item t j)])"
proof (cases e)
  case (AddFiles files)
  then show ?thesis by simp
next
  case Start
  show ?thesis
  proof (cases "isProcessing t")
    case True
    then show ?thesis by (simp add: Start start_def)
  next
    case False
    let ?t0 = "t\<lparr>isProcessing := True, isCancelled := False\<rparr>"
    from wf have "\<forall>a \<in> set (queue ?t0). a < length (items ?t0)"
      by (simp add: wf_processor_def)
    from run_loop_calls [OF this, of 0] False show ?thesis
      by (simp add: Start start_def queue_item_def)
  qed
next
  case Cancel
  then show ?thesis by (simp add: cancel_def)
next
  case Reset
  then show ?thesis by (simp add: reset_def)
next
  case (Settle k outcome)
  show ?thesis
  proof (cases "k < length (pending t)")
    case False
    then show ?thesis by (simp add: Settle settle_def)
  next
    case True
    obtain i a where p: "pending t ! k = (i, a)" by (cases "pending t ! k")
    obtain mid where mid:
      "items mid = (items t)[a := settled_item outcome (items t ! a)]"
      "queue mid = queue t"
      "pending mid = take k (pending t) @ drop (k + 1) (pending t)"
      "settle k outcome t = (if outcome = Rejected Nullish then mid else run_loop (i + 1) mid)"
      "process_calls (trace mid) = process_calls (trace t)"
      by (rule settle_decompose [OF True p, of outcome]) blast
    have wfm: "wf_processor mid" by (rule wf_settle_mid [OF wf True p mid(1-3)])
    from wf True p have proc: "status (items t ! a) = PROCESSING"
      using nth_mem [OF True] by (auto simp: wf_processor_def)
    show ?thesis
    proof (cases "outcome = Rejected Nullish")
      case True
      with mid(4) have "settle k outcome t = mid" by simp
      then show ?thesis by (simp add: Settle mid(5))
    next
      case False
      with mid(4) have run: "settle k outcome t = run_loop (i + 1) mid" by simp
      from wfm have "\<forall>a \<in> set (queue mid). a < length (items mid)"
        by (simp add: wf_processor_def)
      from run_loop_calls [OF this, of "i + 1"]
      show ?thesis
      proof
        assume "process_calls (trace (run_loop (i + 1) mid)) = process_calls (trace mid)"
        then show ?thesis by (simp add: Settle run mid(5))
      next
        assume "\<exists>j < length (queue mid). status (queue_item mid j) = QUEUED
             \<and> status (queue_item (run_loop (i + 1) mid) j) = PROCESSING
             \<and> process_calls (trace (run_loop (i + 1) mid)) =
                 process_calls (trace mid) @ [item_file (queue_item mid j)]"
        then obtain j where j: "j < length (queue t)" "status (queue_item mid j) = QUEUED"
          "status (queue_item (run_loop (i + 1) mid) j) = PROCESSING"
          "process_calls (trace (run_loop (i + 1) mid)) =
                 process_calls (trace t) @ [item_file (queue_item mid j)]"
          unfolding mid(2,5) by blast
        from j(2) settled_queue_item [OF proc mid(1,2), of j]
        have "status (queue_item t j) = QUEUED" "queue_item mid j = queue_item t j"
          by simp_all
        with j show ?thesis
          by (auto simp: Settle run)
      qed
    qed
  qed
qed

text \<open>
  C4, as stated, fails: when the processing callback of the first of the two files throws
  an error whose message is the empty string, the item is \<open>ERROR\<close>, but the text stored
  for it is \<open>Processing failed\<close>, not the message.
\<close>

theorem failure_message_counterexample:
  "status (items (settle 0 (Rejected (ThrownValue (Some ''''))) example_started) ! 0) = ERROR
   \<and> error (items (settle 0 (Rejected (ThrownValue (Some ''''))) example_started) ! 0)
       = Some ''Processing failed''
   \<and> error (items (settle 0 (Rejected (ThrownValue (Some ''''))) example_started) ! 0)
       \<noteq> Some ''''"
  by (simp add: example_started_def run_events_def addFiles_def add_file_def Let_def
        new_BatchProcessor_def example_validate_def small_file_def other_file_def
        call_onItemUpdate_def start_def run_loop.simps queue_item_def begin_item_def
        update_item_def call_onProgressUpdate_def getProgress_def is_terminal_def
        settle_def error_text_def)

text \<open>
  C4, amended. Take a processor in a state it can reach and a suspended invocation of
  \<open>start\<close>, the \<open>k\<close>-th, which awaits the promise of the item at address \<open>a\<close>, at position
  \<open>i\<close> of the queue. Let the promise be rejected with a value other than \<open>null\<close> and
  \<open>undefined\<close>, whose message is \<open>message\<close> (\<open>None\<close> when it has none). Then:

  \<^item> the item is \<open>ERROR\<close>, and the text stored for it is the message when that is a string
    that is not empty, and \<open>Processing failed\<close> otherwise;

  \<^item> unless cancellation has been requested, the invocation goes on with the first item
    after position \<open>i\<close> that is \<open>QUEUED\<close>: it moves it to \<open>PROCESSING\<close> and calls the
    processing callback with its file; when there is none the run ends, with no further
    call;

  \<^item> when this is the only suspended invocation and the promises it awaits from then on
    settle, each with a result or a thrown value other than \<open>null\<close> and \<open>undefined\<close>, the
    processing callback is called with the file of every \<open>QUEUED\<close> item after position
    \<open>i\<close>, in queue order, each of them ends \<open>COMPLETE\<close> or \<open>ERROR\<close>, and the run ends;

  \<^item> whatever happens later, the failed item is not changed, and every call of the
    processing callback is for an item that is \<open>QUEUED\<close>, so never for the failed item.
\<close>

theorem failure_isolated:
  assumes "s = run_events validate genId events (new_BatchProcessor u p c)"
    and "k < length (pending s)" and "pending s ! k = (i, a)"
    and "s' = settle k (Rejected (ThrownValue message)) s"
    and "t = run_events validate genId later s'"
  shows "status (items s' ! a) = ERROR
    \<and> error (items s' ! a) =
         Some (case message of None \<Rightarrow> ''Processing failed''
               | Some m \<Rightarrow> if m = [] then ''Processing failed'' else m)
    \<and> (\<not> isCancelled s \<longrightarrow>
         (case queued_from (i + 1) s of
            [] \<Rightarrow> \<not> isProcessing s' \<and> process_calls (trace s') = process_calls (trace s)
          | j # rest \<Rightarrow>
              status (queue_item s' j) = PROCESSING
              \<and> process_calls (trace s') = process_calls (trace s) @ [item_file (queue_item s j)]))
    \<and> (\<not> isCancelled s \<and> pending s = [(i, a)]
        \<and> (\<forall>outcome \<in> set outcomes. outcome \<noteq> Rejected Nullish)
        \<and> length outcomes = length (queued_from (i + 1) s) \<longrightarrow>
         (\<forall>j \<in> set (queued_from (i + 1) s).
             status (queue_item (settle_all outcomes s') j) = COMPLETE
             \<or> status (queue_item (settle_all outcomes s') j) = ERROR)
         \<and> process_calls (trace (settle_all outcomes s')) =
             process_calls (trace s) @ map (\<lambda>j. item_file (queue_item s j)) (queued_from (i + 1) s)
         \<and> \<not> isProcessing (settle_all outcomes s'))
    \<and> items t ! a = items s' ! a
    \<and> (process_calls (trace (step validate genId e t)) = process_calls (trace t)
        \<or> (\<exists>j < length (queue t). queue t ! j \<noteq> a \<and> status (queue_item t j) = QUEUED
              \<and> process_calls (trace (step validate genId e t)) =
                  process_calls (trace t) @ [item_file (queue_item t j)]))"
proof -
  have wf: "wf_processor s"
    unfolding assms(1) by (rule wf_run_events [OF wf_new_BatchProcessor])
  from wf assms(2,3) have av: "a < length (items s)" and proc: "status (items s ! a) = PROCESSING"
    using nth_mem [OF assms(2)] by (auto simp: wf_processor_def)
  obtain mid where mid:
    "items mid = (items s)[a := settled_item (Rejected (ThrownValue message)) (items s ! a)]"
    "queue mid = queue s"
    "pending mid = take k (pending s) @ drop (k + 1) (pending s)"
    "isCancelled mid = isCancelled s"
    "settle k (Rejected (ThrownValue message)) s =
       (if Rejected (ThrownValue message) = Rejected Nullish then mid else run_loop (i + 1) mid)"
    "process_calls (trace mid) = process_calls (trace s)"
    by (rule settle_decompose [OF assms(2,3), of "Rejected (ThrownValue message)"]) blast
  have run: "s' = run_loop (i + 1) mid" by (simp add: assms(4) mid(5))
  have wfm: "wf_processor mid" by (rule wf_settle_mid [OF wf assms(2,3) mid(1-3)])
  then have qvm: "\<forall>a \<in> set (queue mid). a < length (items mid)" by (simp add: wf_processor_def)
  have wf': "wf_processor s'" unfolding run by (rule wf_run_loop [OF wfm])
  have ma: "items mid ! a = (items s ! a)\<lparr>status := ERROR, error := Some (error_text message)\<rparr>"
    using av by (simp add: mid(1) settled_item_def)
  from loop_effect_run_loop [OF qvm, of "i + 1"]
  have le: "loop_effect mid s'" unfolding run .
  have len: "length (items s') = length (items s)"
    using le by (simp add: loop_effect_def mid(1))
  have a': "items s' ! a = items mid ! a"
  proof -
    from le av have "items s' ! a = items mid ! a \<or> status (items mid ! a) = QUEUED"
      unfolding loop_effect_def by (auto simp: mid(1))
    then show ?thesis by (simp add: ma)
  qed
  have 1: "status (items s' ! a) = ERROR" by (simp add: a' ma)
  have 2: "error (items s' ! a) =
         Some (case message of None \<Rightarrow> ''Processing failed''
               | Some m \<Rightarrow> if m = [] then ''Processing failed'' else m)"
    by (simp add: a' ma error_text_def)
  have qf: "queued_from (i + 1) mid = queued_from (i + 1) s"
    by (rule queued_from_settled [OF proc mid(1,2)])
  have same: "queue_item mid j = queue_item s j" if "j \<in> set (queued_from (i + 1) s)" for j
  proof -
    from that have "status (queue_item s j) = QUEUED" by (simp add: queued_from_def)
    then show ?thesis by (rule settled_queue_item(2) [OF proc mid(1,2)])
  qed
  have 3: "case queued_from (i + 1) s of
            [] \<Rightarrow> \<not> isProcessing s' \<and> process_calls (trace s') = process_calls (trace s)
          | j # rest \<Rightarrow>
              status (queue_item s' j) = PROCESSING
              \<and> process_calls (trace s') = process_calls (trace s) @ [item_file (queue_item s j)]"
    if nc: "\<not> isCancelled s"
  proof (cases "queued_from (i + 1) s")
    case Nil
    from nc have "\<not> isCancelled mid" by (simp add: mid(4))
    from run_loop_queued_Nil [OF _ this, of "i + 1"] Nil qf
    have "s' = finish mid" by (simp add: run)
    then show ?thesis unfolding Nil by (simp add: mid(6))
  next
    case (Cons j rest)
    from nc have "\<not> isCancelled mid" by (simp add: mid(4))
    from run_loop_queued_Cons [OF _ this, of "i + 1" j rest] Cons qf
    have b: "s' = begin_item j mid" by (simp add: run)
    from Cons qf have "queued_from (i + 1) mid = j # rest" by simp
    from queued_from_Cons(2) [OF this] qvm have "queue mid ! j < length (items mid)" by simp
    then have "status (queue_item s' j) = PROCESSING"
      by (simp add: b queue_item_def)
    moreover have "queue_item mid j = queue_item s j"
      by (rule same) (simp only: Cons list.set insertI1)
    then have "process_calls (trace s') = process_calls (trace s) @ [item_file (queue_item s j)]"
      by (simp add: b mid(6) queue_item_def)
    ultimately show ?thesis unfolding Cons by simp
  qed
  have 4: "(\<forall>j \<in> set (queued_from (i + 1) s).
             status (queue_item (settle_all outcomes s') j) = COMPLETE
             \<or> status (queue_item (settle_all outcomes s') j) = ERROR)
         \<and> process_calls (trace (settle_all outcomes s')) =
             process_calls (trace s) @ map (\<lambda>j. item_file (queue_item s j)) (queued_from (i + 1) s)
         \<and> \<not> isProcessing (settle_all outcomes s')"
    if h: "\<not> isCancelled s \<and> pending s = [(i, a)]
        \<and> (\<forall>outcome \<in> set outcomes. outcome \<noteq> Rejected Nullish)
        \<and> length outcomes = length (queued_from (i + 1) s)"
  proof -
    from h have cm: "\<not> isCancelled mid" by (simp add: mid(4))
    from h assms(2) have pm: "pending mid = []" by (simp add: mid(3))
    from h have nn: "\<forall>outcome \<in> set outcomes. outcome \<noteq> Rejected Nullish" by blast
    from h have ln: "length outcomes = length (queued_from (i + 1) mid)" unfolding qf by blast
    note R = run_completes [OF wfm pm cm nn ln, folded run, unfolded qf mid(6)]
    have files: "map (\<lambda>j. item_file (queue_item mid j)) (queued_from (i + 1) s) =
                 map (\<lambda>j. item_file (queue_item s j)) (queued_from (i + 1) s)"
      by (rule map_cong [OF refl]) (simp add: same)
    from R show ?thesis unfolding files by blast
  qed
  have terminal: "is_terminal (status (items s' ! a))" by (simp add: 1 is_terminal_def)
  have av': "a < length (items s')" by (simp add: len av)
  from run_events_terminal_item [OF wf' av' terminal, of validate genId later]
  have 5: "items t ! a = items s' ! a" by (simp add: assms(5))
  have wft: "wf_processor t" unfolding assms(5) by (rule wf_run_events [OF wf'])
  have 6: "process_calls (trace (step validate genId e t)) = process_calls (trace t)
        \<or> (\<exists>j < length (queue t). queue t ! j \<noteq> a \<and> status (queue_item t j) = QUEUED
              \<and> process_calls (trace (step validate genId e t)) =
                  process_calls (trace t) @ [item_file (queue_item t j)])"
    using step_calls [OF wft, of validate genId e]
  proof
    assume "process_calls (trace (step validate genId e t)) = process_calls (trace t)"
    then show ?thesis ..
  next
    assume "\<exists>j < length (queue t). status (queue_item t j) = QUEUED
             \<and> status (queue_item (step validate genId e t) j) = PROCESSING
             \<and> process_calls (trace (step validate genId e t)) =
                 process_calls (trace t) @ [item_file (queue_item t j)]"
    then obtain j where j: "j < length (queue t)" "status (queue_item t j) = QUEUED"
      "process_calls (trace (step validate genId e t)) =
                 process_calls (trace t) @ [item_file (queue_item t j)]"
      by blast
    from j(2) 5 1 have "queue t ! j \<noteq> a" by (auto simp: queue_item_def)
    with j show ?thesis by blast
  qed
  show ?thesis
    by (intro conjI; (intro impI)?; (rule 1 2 3 4 5 6; assumption?))
qed


theorem failure_isolated_witness:
  "status (items example_failed ! 0) = ERROR
   \<and> error (items example_failed ! 0) = Some ''boom''
   \<and> status (queue_item example_failed 1) = PROCESSING
   \<and> process_calls (trace example_failed) = [small_file, other_file]
   \<and> process_calls (trace (settle_all [Resolved example_result] example_failed))
        = [small_file, other_file]
   \<and> \<not> isProcessing (settle_all [Resolved example_result] example_failed)
   \<and> items (run_events example_validate example_genId [Cancel, Start] example_failed) ! 0
        = items example_failed ! 0"
proof -
  have st: "status (items example_started ! Suc 0) = QUEUED"
    "item_file (items example_started ! Suc 0) = other_file"
    using arg_cong [OF example_started_state(1), of "\<lambda>xs. xs ! 1"]
      arg_cong [OF example_started_state(2), of "\<lambda>xs. xs ! 1"]
      arg_cong [OF example_started_state(1), of length]
    by simp_all
  have k: "0 < length (pending example_started)"
    and p: "pending example_started ! 0 = (0, 0)"
    by (simp_all add: example_started_state(5))
  have q: "queued_from (0 + 1) example_started = [1]"
    by (simp add: queued_from_def queue_item_def example_started_state(4) st upt_rec)
  have f1: "item_file (queue_item example_started 1) = other_file"
    by (simp add: queue_item_def example_started_state(4) st)
  have ante: "\<not> isCancelled example_started \<and> pending example_started = [(0, 0)]
        \<and> (\<forall>outcome \<in> set [Resolved example_result]. outcome \<noteq> Rejected Nullish)
        \<and> length [Resolved example_result] = length (queued_from (0 + 1) example_started)"
    unfolding q by (simp add: example_started_state(5,6))
  note T = failure_isolated [where outcomes = "[Resolved example_result]" and e = Start
      and later = "[Cancel, Start]", OF example_started_def k p example_failed_def refl]
  note T1 = T [THEN conjunct1]
  note T2 = T [THEN conjunct2, THEN conjunct1]
  note T3 = T [THEN conjunct2, THEN conjunct2, THEN conjunct1, THEN mp,
      OF example_started_state(6), unfolded q list.case]
  note T4 = T [THEN conjunct2, THEN conjunct2, THEN conjunct2, THEN conjunct1, THEN mp,
      OF ante, unfolded q]
  note T5 = T [THEN conjunct2, THEN conjunct2, THEN conjunct2, THEN conjunct2, THEN conjunct1]
  have 2: "error (items example_failed ! 0) = Some ''boom''"
    using T2 by simp
  have 3: "status (queue_item example_failed 1) = PROCESSING" by (rule T3 [THEN conjunct1])
  have 4: "process_calls (trace example_failed) = [small_file, other_file]"
    unfolding T3 [THEN conjunct2] f1 example_started_state(7) by simp
  have 5: "process_calls (trace (settle_all [Resolved example_result] example_failed))
        = [small_file, other_file]"
    unfolding T4 [THEN conjunct2, THEN conjunct1] example_started_state(7) using f1 by simp
  have 6: "\<not> isProcessing (settle_all [Resolved example_result] example_failed)"
    by (rule T4 [THEN conjunct2, THEN conjunct2])
  show ?thesis
    by (intro conjI) (rule T1 2 3 4 5 6 T5)+
qed


text \<open>
  The amended claim leaves out a promise rejected with \<open>null\<close> or \<open>undefined\<close>. There the
  \<open>catch\<close> block itself throws when it reads the message: the item is \<open>ERROR\<close> with no
  text, the second item stays \<open>QUEUED\<close> with no invocation left to process it, and the
  processor still counts as processing.
\<close>

lemma nullish_rejection_aborts:
  "map status (items (settle 0 (Rejected Nullish) example_started)) = [ERROR, QUEUED]"
  "map error (items (settle 0 (Rejected Nullish) example_started)) = [None, None]"
  "pending (settle 0 (Rejected Nullish) example_started) = []"
  "isProcessing (settle 0 (Rejected Nullish) example_started)"
  by (simp_all add: example_started_def run_events_def addFiles_def add_file_def Let_def
        new_BatchProcessor_def example_validate_def small_file_def other_file_def
        call_onItemUpdate_def start_def run_loop.simps queue_item_def begin_item_def
        update_item_def call_onProgressUpdate_def getProgress_def is_terminal_def
        settle_def)

end
